theory Spec2Isabelle
  imports Main "HOL-Library.Multiset"
begin

section \<open>Data model\<close>

text \<open>
  The documents of the three collections, as the services read and write them.
  Identifiers are the strings the store holds (\<open>str(ObjectId())\<close>); a
  \<open>parent_id\<close> may be absent (\<open>None\<close>). Time stamps are opaque numbers.
\<close>

datatype UserRole = SUPER_ADMIN | ADMIN | USER | PENDING

datatype PermissionType = READ | WRITE | DELETE

fun ptype_value :: "PermissionType \<Rightarrow> string" where
  "ptype_value READ = ''read''"
| "ptype_value WRITE = ''write''"
| "ptype_value DELETE = ''delete''"

record directory =
  d_id :: string
  d_name :: string
  d_owner_id :: string
  d_parent_id :: "string option"
  d_path :: string
  d_is_public :: bool
  d_created_at :: nat

record permission =
  p_id :: string
  p_user_id :: string
  p_directory_id :: string
  p_permissions :: "string list"
  p_granted_by :: string
  p_created_at :: nat

record user =
  u_id :: string
  u_email :: string
  u_role :: UserRole
  u_is_active :: bool
  u_created_at :: nat

record file_doc =
  f_id :: string
  f_filename :: string
  f_s3_key :: string
  f_directory_id :: string
  f_owner_id :: string

text \<open>The request body of a grant and the response built from the stored grant.\<close>

record PermissionGrant =
  pg_user_email :: string
  pg_permissions :: "PermissionType list"

record PermissionResponse =
  pr_id :: string
  pr_user_id :: string
  pr_user_email :: string
  pr_directory_id :: string
  pr_permissions :: "PermissionType list"
  pr_created_at :: nat

text \<open>
  A node of the returned tree: the directory's fields and the list of its children.
  The children are the node objects of the builder's \<open>dir_map\<close>, referred to by
  their key, since a node keeps receiving children after it has been attached.
\<close>

record tree_node = directory +
  t_children :: "string list"

text \<open>The three collections a cascade delete writes to.\<close>

record store =
  st_dirs :: "directory list"
  st_files :: "file_doc list"
  st_perms :: "permission list"

datatype error =
    HTTPException nat string
  | ValueError string
  | PermissionError string
  | TypeError
  | DuplicateKeyError

section \<open>Collections\<close>

text \<open>
  A collection is the list of its documents in the store's enumeration order.
  \<open>find_one\<close> gives the first document matching the query, \<open>find_many\<close> all of
  them, \<open>delete_many\<close> removes all of them.
\<close>

definition find_one :: "('a \<Rightarrow> bool) \<Rightarrow> 'a list \<Rightarrow> 'a option" where
  "find_one q coll = List.find q coll"

definition find_many :: "('a \<Rightarrow> bool) \<Rightarrow> 'a list \<Rightarrow> 'a list" where
  "find_many q coll = filter q coll"

definition delete_many :: "('a \<Rightarrow> bool) \<Rightarrow> 'a list \<Rightarrow> 'a list" where
  "delete_many q coll = filter (\<lambda>x. \<not> q x) coll"

fun delete_one :: "('a \<Rightarrow> bool) \<Rightarrow> 'a list \<Rightarrow> 'a list" where
  "delete_one q [] = []"
| "delete_one q (x # xs) = (if q x then xs else x # delete_one q xs)"

fun update_one :: "('a \<Rightarrow> bool) \<Rightarrow> ('a \<Rightarrow> 'a) \<Rightarrow> 'a list \<Rightarrow> 'a list" where
  "update_one q upd [] = []"
| "update_one q upd (x # xs) = (if q x then upd x # xs else x # update_one q upd xs)"

text \<open>
  \<open>insert_one\<close> appends the document; the store refuses a document whose \<open>_id\<close> is
  already in the collection.
\<close>

definition insert_one :: "('a \<Rightarrow> string) \<Rightarrow> 'a \<Rightarrow> 'a list \<Rightarrow> error + 'a list" where
  "insert_one key doc coll =
     (if key doc \<in> set (map key coll) then Inl DuplicateKeyError else Inr (coll @ [doc]))"

text \<open>Python's truth value of \<open>doc.get("parent_id")\<close>: absent and empty are false.\<close>

fun truthy :: "string option \<Rightarrow> bool" where
  "truthy None = False"
| "truthy (Some s) = (s \<noteq> [])"

section \<open>Role policy (models/role.py)\<close>

fun ROLE_PERMISSIONS :: "UserRole \<Rightarrow> (string \<times> bool) list" where
  "ROLE_PERMISSIONS SUPER_ADMIN =
     [(''read'', True), (''write'', True), (''delete'', True),
      (''manage_users'', True), (''access_all'', True)]"
| "ROLE_PERMISSIONS ADMIN =
     [(''read'', True), (''write'', True), (''delete'', True),
      (''manage_users'', True), (''access_all'', False)]"
| "ROLE_PERMISSIONS USER =
     [(''read'', True), (''write'', True), (''delete'', False),
      (''manage_users'', False), (''access_all'', False)]"
| "ROLE_PERMISSIONS PENDING =
     [(''read'', False), (''write'', False), (''delete'', False),
      (''manage_users'', False), (''access_all'', False)]"

text \<open>
  Every role has an entry in the table, so the default of \<open>ROLE_PERMISSIONS.get\<close> is
  never taken; a capability name without an entry counts as denied.
\<close>

definition get_role_permissions :: "UserRole \<Rightarrow> (string \<times> bool) list" where
  "get_role_permissions role = ROLE_PERMISSIONS role"

definition has_permission :: "UserRole \<Rightarrow> string \<Rightarrow> bool" where
  "has_permission role perm =
     (case map_of (get_role_permissions role) perm of None \<Rightarrow> False | Some b \<Rightarrow> b)"

section \<open>Directory predicates (services/directory\_service.py)\<close>

definition is_owner :: "directory list \<Rightarrow> string \<Rightarrow> string \<Rightarrow> bool" where
  "is_owner dirs directory_id user_id =
     (find_one (\<lambda>d. d_id d = directory_id \<and> d_owner_id d = user_id) dirs \<noteq> None)"

definition is_public :: "directory list \<Rightarrow> string \<Rightarrow> bool" where
  "is_public dirs directory_id =
     (case find_one (\<lambda>d. d_id d = directory_id) dirs of
        None \<Rightarrow> False
      | Some dir_doc \<Rightarrow> d_is_public dir_doc)"

section \<open>Permission resolution (services/permission\_service.py)\<close>

text \<open>
  The \<open>while\<close> loop of \<open>check_permission\<close> that collects the identifiers from the
  directory up to the root. It has no bound and no visited set, so on a cyclic parent
  chain it does not return: the value is then \<open>None\<close>.
\<close>

partial_function (option) build_path ::
  "directory list \<Rightarrow> directory \<Rightarrow> string list \<Rightarrow> string list option" where
  "build_path dirs current path_ids =
     (if truthy (d_parent_id current)
      then (case find_one (\<lambda>d. d_id d = the (d_parent_id current)) dirs of
              None \<Rightarrow> Some (path_ids @ [the (d_parent_id current)])
            | Some nxt \<Rightarrow> build_path dirs nxt (path_ids @ [the (d_parent_id current)]))
      else Some path_ids)"

text \<open>The \<open>for\<close> loop over the collected path: the first grant found decides.\<close>

fun scan_path :: "permission list \<Rightarrow> string \<Rightarrow> string \<Rightarrow> string list \<Rightarrow> bool" where
  "scan_path perms user_id pv [] = False"
| "scan_path perms user_id pv (dir_id # rest) =
     (case find_one (\<lambda>p. p_user_id p = user_id \<and> p_directory_id p = dir_id) perms of
        Some perm \<Rightarrow> pv \<in> set (p_permissions perm)
      | None \<Rightarrow> scan_path perms user_id pv rest)"

definition check_permission ::
  "directory list \<Rightarrow> permission list \<Rightarrow> string \<Rightarrow> string \<Rightarrow> PermissionType \<Rightarrow> bool option" where
  "check_permission dirs perms user_id directory_id permission_type =
     (case find_one (\<lambda>d. d_id d = directory_id) dirs of
        None \<Rightarrow> Some False
      | Some directory \<Rightarrow>
          if d_owner_id directory = user_id then Some True
          else (case build_path dirs directory [directory_id] of
                  None \<Rightarrow> None
                | Some path_ids \<Rightarrow>
                    Some (scan_path perms user_id (ptype_value permission_type) path_ids)))"

definition can_access_directory ::
  "directory list \<Rightarrow> permission list \<Rightarrow> string \<Rightarrow> string \<Rightarrow> bool option" where
  "can_access_directory dirs perms user_id directory_id =
     (case find_one (\<lambda>d. d_id d = directory_id) dirs of
        None \<Rightarrow> Some False
      | Some directory \<Rightarrow>
          if d_owner_id directory = user_id then Some True
          else check_permission dirs perms user_id directory_id READ)"

section \<open>The request-level checker (api/deps.py)\<close>

text \<open>
  \<open>PermissionChecker.__call__\<close>: \<open>Inr True\<close> is the returned \<open>True\<close>, \<open>Inl\<close> the
  raised \<open>HTTPException\<close>; \<open>None\<close> is a call that does not return.
\<close>

definition PermissionChecker ::
  "PermissionType \<Rightarrow> directory list \<Rightarrow> permission list \<Rightarrow> string \<Rightarrow> user
     \<Rightarrow> (error + bool) option" where
  "PermissionChecker permission_type dirs perms directory_id current_user =
     (if u_role current_user = SUPER_ADMIN then Some (Inr True)
      else if (permission_type = READ \<or> permission_type = WRITE)
              \<and> is_public dirs directory_id then Some (Inr True)
      else if u_role current_user = ADMIN
              \<and> is_owner dirs directory_id (u_id current_user) then Some (Inr True)
      else if \<not> has_permission (u_role current_user) (ptype_value permission_type)
        then Some (Inl (HTTPException 403
               (''Your role does not have '' @ ptype_value permission_type @ '' permission'')))
      else if is_owner dirs directory_id (u_id current_user) then Some (Inr True)
      else (case check_permission dirs perms (u_id current_user) directory_id permission_type of
              None \<Rightarrow> None
            | Some has_perm \<Rightarrow>
                if \<not> has_perm
                then Some (Inl (HTTPException 403
                       (''Missing '' @ ptype_value permission_type
                          @ '' permission for this directory'')))
                else Some (Inr True)))"

text \<open>
  \<open>DirectoryService.get_directory\<close>: the response carries the document's fields.
\<close>

definition get_directory :: "directory list \<Rightarrow> string \<Rightarrow> directory option" where
  "get_directory dirs directory_id = find_one (\<lambda>d. d_id d = directory_id) dirs"

text \<open>
  The route \<open>get_directory\<close> of api/directories.py, which shares its name with the
  service function it calls first: the directory, or the raised \<open>HTTPException\<close>.
\<close>

definition get_directory_endpoint ::
  "directory list \<Rightarrow> permission list \<Rightarrow> string \<Rightarrow> user \<Rightarrow> (error + directory) option" where
  "get_directory_endpoint dirs perms directory_id current_user =
     (case get_directory dirs directory_id of
        None \<Rightarrow> Some (Inl (HTTPException 404 ''Directory not found''))
      | Some directory \<Rightarrow>
          if u_role current_user = SUPER_ADMIN then Some (Inr directory)
          else if d_is_public directory then Some (Inr directory)
          else if d_owner_id directory = u_id current_user then Some (Inr directory)
          else (case can_access_directory dirs perms (u_id current_user) directory_id of
                  None \<Rightarrow> None
                | Some can_access \<Rightarrow>
                    if \<not> can_access
                    then Some (Inl (HTTPException 403 ''No access to this directory''))
                    else Some (Inr directory)))"

section \<open>Granting (services/permission\_service.py)\<close>

fun PermissionType_of :: "string \<Rightarrow> PermissionType option" where
  "PermissionType_of s =
     (if s = ''read'' then Some READ
      else if s = ''write'' then Some WRITE
      else if s = ''delete'' then Some DELETE
      else None)"

text \<open>
  \<open>grant_permission\<close>. \<open>new_oid\<close> is the value of \<open>str(ObjectId())\<close> and \<open>now\<close>
  the clock reading of this call. The result is the response and the permissions
  collection after the call.
\<close>

definition grant_permission ::
  "directory list \<Rightarrow> user list \<Rightarrow> permission list \<Rightarrow> PermissionGrant \<Rightarrow> string \<Rightarrow> string
     \<Rightarrow> string \<Rightarrow> nat \<Rightarrow> error + (PermissionResponse \<times> permission list)" where
  "grant_permission dirs users perms data directory_id granted_by new_oid now =
     (case find_one (\<lambda>d. d_id d = directory_id) dirs of
        None \<Rightarrow> Inl (ValueError ''Directory not found'')
      | Some directory \<Rightarrow>
     if d_owner_id directory \<noteq> granted_by
       then Inl (PermissionError ''Only directory owner can grant permissions'')
     else
     (case find_one (\<lambda>u. u_email u = pg_user_email data) users of
        None \<Rightarrow> Inl (ValueError ''User not found'')
      | Some usr \<Rightarrow>
     if u_id usr = granted_by
       then Inl (ValueError ''Cannot grant permissions to yourself'')
     else
     (case (case find_one (\<lambda>p. p_user_id p = u_id usr \<and> p_directory_id p = directory_id) perms of
              Some existing \<Rightarrow>
                Inr (p_id existing,
                     update_one (\<lambda>p. p_id p = p_id existing)
                       (\<lambda>p. p\<lparr>p_permissions := map ptype_value (pg_permissions data)\<rparr>) perms)
            | None \<Rightarrow>
                (case insert_one p_id
                        \<lparr>p_id = new_oid, p_user_id = u_id usr, p_directory_id = directory_id,
                         p_permissions = map ptype_value (pg_permissions data),
                         p_granted_by = granted_by, p_created_at = now\<rparr> perms of
                   Inl e \<Rightarrow> Inl e
                 | Inr perms' \<Rightarrow> Inr (new_oid, perms'))) of
        Inl e \<Rightarrow> Inl e
      | Inr (perm_id, perms') \<Rightarrow>
          (case find_one (\<lambda>p. p_id p = perm_id) perms' of
             None \<Rightarrow> Inl TypeError
           | Some perm \<Rightarrow>
               (case those (map PermissionType_of (p_permissions perm)) of
                  None \<Rightarrow> Inl (ValueError ''not a valid PermissionType'')
                | Some ps \<Rightarrow>
                    Inr (\<lparr>pr_id = p_id perm, pr_user_id = p_user_id perm,
                          pr_user_email = pg_user_email data,
                          pr_directory_id = p_directory_id perm,
                          pr_permissions = ps, pr_created_at = p_created_at perm\<rparr>,
                         perms'))))))"

text \<open>
  A sequence of grant requests against fixed directories and users, each with its own
  fresh-identifier and clock values. A request that raises leaves the collection as it
  was; a request that succeeds is logged as (grantee, directory, capabilities), the
  grantee being the user the request's e-mail address resolves to.
\<close>

type_synonym grant_request = "PermissionGrant \<times> string \<times> string \<times> string \<times> nat"

fun grant_all ::
  "directory list \<Rightarrow> user list \<Rightarrow> grant_request list
     \<Rightarrow> permission list \<times> (string \<times> string \<times> string list) list
     \<Rightarrow> permission list \<times> (string \<times> string \<times> string list) list" where
  "grant_all dirs users [] (perms, log) = (perms, log)"
| "grant_all dirs users ((data, directory_id, granted_by, new_oid, now) # reqs) (perms, log) =
     (case grant_permission dirs users perms data directory_id granted_by new_oid now of
        Inl e \<Rightarrow> grant_all dirs users reqs (perms, log)
      | Inr (resp, perms') \<Rightarrow>
          (case find_one (\<lambda>u. u_email u = pg_user_email data) users of
             None \<Rightarrow> grant_all dirs users reqs (perms', log)
           | Some grantee \<Rightarrow>
               grant_all dirs users reqs
                 (perms', log @ [(u_id grantee, directory_id,
                                  map ptype_value (pg_permissions data))])))"

text \<open>The capabilities of the most recent logged grant for a pair, if any.\<close>

definition last_granted ::
  "(string \<times> string \<times> string list) list \<Rightarrow> string \<Rightarrow> string \<Rightarrow> string list option" where
  "last_granted log usr dir =
     map_option (\<lambda>(u, d, ps). ps) (find_one (\<lambda>(u, d, ps). u = usr \<and> d = dir) (rev log))"

section \<open>Visible directories and the tree (services/directory\_service.py)\<close>

text \<open>The loop over the public directories: it extends \<open>result_ids\<close> as it goes.\<close>

fun public_loop ::
  "directory list \<Rightarrow> directory list \<times> string set \<Rightarrow> directory list \<times> string set" where
  "public_loop [] (result, result_ids) = (result, result_ids)"
| "public_loop (d # ds) (result, result_ids) =
     (if d_id d \<notin> result_ids
      then public_loop ds (result @ [d\<lparr>d_is_public := True\<rparr>], insert (d_id d) result_ids)
      else public_loop ds (result, result_ids))"

text \<open>The loop over the shared directories: \<open>result_ids\<close> stays as it is.\<close>

fun shared_loop :: "directory list \<Rightarrow> string set \<Rightarrow> directory list \<Rightarrow> directory list" where
  "shared_loop [] result_ids result = result"
| "shared_loop (d # ds) result_ids result =
     (if d_id d \<notin> result_ids then shared_loop ds result_ids (result @ [d])
      else shared_loop ds result_ids result)"

definition get_user_directories ::
  "directory list \<Rightarrow> permission list \<Rightarrow> string \<Rightarrow> UserRole \<Rightarrow> directory list" where
  "get_user_directories dirs perms user_id user_role =
     (if user_role = SUPER_ADMIN then find_many (\<lambda>d. True) dirs
      else
        let owned = find_many (\<lambda>d. d_owner_id d = user_id) dirs;
            (result, result_ids) =
               public_loop (find_many (\<lambda>d. d_is_public d) dirs) (owned, set (map d_id owned));
            shared_ids = map p_directory_id (find_many (\<lambda>p. p_user_id p = user_id) perms)
        in if shared_ids \<noteq> []
           then shared_loop (find_many (\<lambda>d. d_id d \<in> set shared_ids) dirs) result_ids result
           else result)"

text \<open>
  A Python dict keeps its keys in insertion order; storing under a key that is present
  replaces the value in place.
\<close>

fun dict_set :: "string \<Rightarrow> 'v \<Rightarrow> (string \<times> 'v) list \<Rightarrow> (string \<times> 'v) list" where
  "dict_set k v [] = [(k, v)]"
| "dict_set k v ((k', v') # m) = (if k = k' then (k, v) # m else (k', v') # dict_set k v m)"

definition new_node :: "directory \<Rightarrow> tree_node" where
  "new_node d = directory.extend d (tree_node.fields [])"

definition build_dir_map :: "directory list \<Rightarrow> (string \<times> tree_node) list" where
  "build_dir_map all_dirs = foldl (\<lambda>m d. dict_set (d_id d) (new_node d) m) [] all_dirs"

definition append_child ::
  "string \<Rightarrow> string \<Rightarrow> (string \<times> tree_node) list \<Rightarrow> (string \<times> tree_node) list" where
  "append_child parent child dir_map =
     map (\<lambda>(k, n). if k = parent then (k, n\<lparr>t_children := t_children n @ [child]\<rparr>) else (k, n))
       dir_map"

text \<open>
  The assembly loop over \<open>dir_map.values()\<close>: each node is appended to the children of
  its parent's node, or to \<open>roots\<close>.
\<close>

fun attach_loop ::
  "string list \<Rightarrow> (string \<times> tree_node) list \<times> string list
     \<Rightarrow> (string \<times> tree_node) list \<times> string list" where
  "attach_loop [] (dir_map, roots) = (dir_map, roots)"
| "attach_loop (k # ks) (dir_map, roots) =
     (case map_of dir_map k of
        None \<Rightarrow> attach_loop ks (dir_map, roots)
      | Some dir_tree \<Rightarrow>
          if truthy (d_parent_id dir_tree) \<and> the (d_parent_id dir_tree) \<in> set (map fst dir_map)
          then attach_loop ks (append_child (the (d_parent_id dir_tree)) k dir_map, roots)
          else attach_loop ks (dir_map, roots @ [k]))"

text \<open>
  \<open>get_directory_tree\<close> returns the list \<open>roots\<close> of node objects; the model returns
  the keys of the roots together with the node objects they and their children refer to.
\<close>

definition get_directory_tree ::
  "directory list \<Rightarrow> permission list \<Rightarrow> string \<Rightarrow> UserRole
     \<Rightarrow> (string \<times> tree_node) list \<times> string list" where
  "get_directory_tree dirs perms user_id user_role =
     (let all_dirs = get_user_directories dirs perms user_id user_role;
          dir_map = build_dir_map all_dirs
      in attach_loop (map fst dir_map) (dir_map, []))"

section \<open>Cascade delete (services/directory\_service.py)\<close>

text \<open>
  The loop of \<open>_get_descendant_ids\<close>: the head of the queue is popped and each of its
  children is appended to the result and to the queue. Nothing records the identifiers
  already seen, so the loop need not end: the value is then \<open>None\<close>.
\<close>

partial_function (option) descendants_loop ::
  "directory list \<Rightarrow> string list \<Rightarrow> string list \<Rightarrow> string list option" where
  "descendants_loop dirs queue result =
     (case queue of
        [] \<Rightarrow> Some result
      | parent_id # rest \<Rightarrow>
          descendants_loop dirs
            (snd (foldl (\<lambda>(r, q) child. (r @ [d_id child], q @ [d_id child])) (result, rest)
                    (find_many (\<lambda>d. d_parent_id d = Some parent_id) dirs)))
            (fst (foldl (\<lambda>(r, q) child. (r @ [d_id child], q @ [d_id child])) (result, rest)
                    (find_many (\<lambda>d. d_parent_id d = Some parent_id) dirs))))"

definition get_descendant_ids :: "directory list \<Rightarrow> string \<Rightarrow> string list option" where
  "get_descendant_ids dirs directory_id = descendants_loop dirs [directory_id] []"

text \<open>
  \<open>delete_directory\<close>: the returned flag and the store after each write the call
  issues, in the order issued.
\<close>

definition delete_directory ::
  "store \<Rightarrow> string \<Rightarrow> string \<Rightarrow> UserRole \<Rightarrow> bool \<Rightarrow> (error + bool \<times> store list) option" where
  "delete_directory st directory_id user_id user_role cascade =
     (case find_one (\<lambda>d. d_id d = directory_id) (st_dirs st) of
        None \<Rightarrow> Some (Inr (False, []))
      | Some dir_doc \<Rightarrow>
          if d_owner_id dir_doc \<noteq> user_id \<and> user_role \<noteq> SUPER_ADMIN
            then Some (Inl (PermissionError ''Not authorized to delete this directory''))
          else if find_one (\<lambda>d. d_parent_id d = Some directory_id) (st_dirs st) \<noteq> None
                  \<and> \<not> cascade
            then Some (Inl (ValueError
                   ''Directory has subdirectories. Use cascade=true to delete all.''))
          else if find_one (\<lambda>f. f_directory_id f = directory_id) (st_files st) \<noteq> None
                  \<and> \<not> cascade
            then Some (Inl (ValueError ''Directory has files. Use cascade=true to delete all.''))
          else if cascade then
            (case get_descendant_ids (st_dirs st) directory_id of
               None \<Rightarrow> None
             | Some descendant_ids \<Rightarrow>
                 let all_ids = [directory_id] @ descendant_ids;
                     s1 = st\<lparr>st_files :=
                            delete_many (\<lambda>f. f_directory_id f \<in> set all_ids) (st_files st)\<rparr>;
                     s2 = s1\<lparr>st_perms :=
                            delete_many (\<lambda>p. p_directory_id p \<in> set all_ids) (st_perms s1)\<rparr>;
                     s3 = s2\<lparr>st_dirs :=
                            delete_many (\<lambda>d. d_id d \<in> set all_ids) (st_dirs s2)\<rparr>
                 in Some (Inr (True, [s1, s2, s3])))
          else
            let s1 = st\<lparr>st_perms :=
                       delete_many (\<lambda>p. p_directory_id p = directory_id) (st_perms st)\<rparr>;
                s2 = s1\<lparr>st_dirs := delete_one (\<lambda>d. d_id d = directory_id) (st_dirs s1)\<rparr>
            in Some (Inr (True, [s1, s2])))"

section \<open>Notions used in the statements\<close>

text \<open>
  The ancestor chain of a directory contains a dangling \<open>parent_id\<close>: following the
  parent links from it reaches a link whose identifier no stored directory has.
\<close>

inductive dangling_chain :: "directory list \<Rightarrow> directory \<Rightarrow> bool" for dirs where
  broken_here:
    "truthy (d_parent_id d) \<Longrightarrow>
     find_one (\<lambda>x. d_id x = the (d_parent_id d)) dirs = None \<Longrightarrow> dangling_chain dirs d"
| broken_above:
    "truthy (d_parent_id d) \<Longrightarrow>
     find_one (\<lambda>x. d_id x = the (d_parent_id d)) dirs = Some nxt \<Longrightarrow>
     dangling_chain dirs nxt \<Longrightarrow> dangling_chain dirs d"

text \<open>
  The ancestor chain of a directory: the identifiers met by following the
  \<open>parent_id\<close> links upward, nearest first. It ends at a directory without a
  \<open>parent_id\<close> and, at a broken link, with the identifier that no stored directory
  has.
\<close>

inductive ancestor_chain :: "directory list \<Rightarrow> directory \<Rightarrow> string list \<Rightarrow> bool" for dirs where
  at_root:
    "\<not> truthy (d_parent_id d) \<Longrightarrow> ancestor_chain dirs d []"
| at_broken_link:
    "d_parent_id d = Some p \<Longrightarrow> p \<noteq> [] \<Longrightarrow>
     find_one (\<lambda>x. d_id x = p) dirs = None \<Longrightarrow> ancestor_chain dirs d [p]"
| at_parent:
    "d_parent_id d = Some p \<Longrightarrow> p \<noteq> [] \<Longrightarrow>
     find_one (\<lambda>x. d_id x = p) dirs = Some nxt \<Longrightarrow>
     ancestor_chain dirs nxt ups \<Longrightarrow> ancestor_chain dirs d (p # ups)"

text \<open>The first grant of a user met along a list of directory identifiers.\<close>

fun first_grant :: "permission list \<Rightarrow> string \<Rightarrow> string list \<Rightarrow> permission option" where
  "first_grant perms user_id [] = None"
| "first_grant perms user_id (x # xs) =
     (case find_one (\<lambda>p. p_user_id p = user_id \<and> p_directory_id p = x) perms of
        Some g \<Rightarrow> Some g
      | None \<Rightarrow> first_grant perms user_id xs)"

text \<open>
  A directory is visible to a user: the user owns it, or it is public, or some grant
  for the user names it, whatever the grant's capabilities.
\<close>

definition visible :: "permission list \<Rightarrow> string \<Rightarrow> directory \<Rightarrow> bool" where
  "visible perms user_id d =
     (d_owner_id d = user_id \<or> d_is_public d
      \<or> (\<exists>p \<in> set perms. p_user_id p = user_id \<and> p_directory_id p = d_id d))"

text \<open>The children attached to the node stored under a key of the builder's map.\<close>

definition children_of :: "(string \<times> tree_node) list \<Rightarrow> string \<Rightarrow> string list" where
  "children_of dir_map k = (case map_of dir_map k of None \<Rightarrow> [] | Some n \<Rightarrow> t_children n)"

text \<open>
  What the assembly loop decides for the node under key \<open>k\<close>, read off the map
  before the loop: attached under \<open>q\<close>, or a root.
\<close>

definition attached :: "(string \<times> tree_node) list \<Rightarrow> string \<Rightarrow> string \<Rightarrow> bool" where
  "attached h k q =
     (case map_of h k of None \<Rightarrow> False
      | Some n \<Rightarrow> truthy (d_parent_id n) \<and> the (d_parent_id n) \<in> fst ` set h
                  \<and> the (d_parent_id n) = q)"

definition is_root :: "(string \<times> tree_node) list \<Rightarrow> string \<Rightarrow> bool" where
  "is_root h k =
     (case map_of h k of None \<Rightarrow> False
      | Some n \<Rightarrow> \<not> (truthy (d_parent_id n) \<and> the (d_parent_id n) \<in> fst ` set h))"

text \<open>
  The grant records of one (grantee, directory) pair, and the two properties a
  permissions collection keeps under granting: identifiers and pairs are unique, and
  each pair's records are what the log of successful grants says they are.
\<close>

definition grant_key :: "permission \<Rightarrow> string \<times> string" where
  "grant_key p = (p_user_id p, p_directory_id p)"

definition grants_for :: "permission list \<Rightarrow> string \<Rightarrow> string \<Rightarrow> permission list" where
  "grants_for perms usr dir = filter (\<lambda>p. p_user_id p = usr \<and> p_directory_id p = dir) perms"

definition store_ok :: "permission list \<Rightarrow> bool" where
  "store_ok perms \<longleftrightarrow> distinct (map p_id perms) \<and> distinct (map grant_key perms)"

definition log_agrees ::
  "permission list \<Rightarrow> (string \<times> string \<times> string list) list \<Rightarrow> bool" where
  "log_agrees perms log \<longleftrightarrow>
     (\<forall>usr dir. map p_permissions (grants_for perms usr dir)
        = (case last_granted log usr dir of None \<Rightarrow> [] | Some ps \<Rightarrow> [ps]))"

text \<open>
  The identifiers of the children of a directory, in enumeration order: what one round
  of the descendant loop appends.
\<close>

definition children_ids :: "directory list \<Rightarrow> string \<Rightarrow> string list" where
  "children_ids dirs p = map d_id (find_many (\<lambda>d. d_parent_id d = Some p) dirs)"

text \<open>
  No file and no grant of the store refers to an identifier of the plan that has no
  directory in the store.
\<close>

definition orphan_free :: "store \<Rightarrow> string list \<Rightarrow> bool" where
  "orphan_free s plan \<longleftrightarrow>
     (\<forall>x \<in> set plan. x \<notin> d_id ` set (st_dirs s) \<longrightarrow>
        (\<forall>f \<in> set (st_files s). f_directory_id f \<noteq> x)
        \<and> (\<forall>p \<in> set (st_perms s). p_directory_id p \<noteq> x))"

text \<open>
  The parent links of a store as a relation from child to parent; the descendants of a
  directory are what reaches it through one or more links. A cycle lies at or below
  \<open>x\<close> when some identifier reaches both \<open>x\<close> and, through at least one link,
  itself.
\<close>

definition child_rel :: "directory list \<Rightarrow> (string \<times> string) set" where
  "child_rel dirs = {(d_id d, p) | d p. d \<in> set dirs \<and> d_parent_id d = Some p}"

definition on_cycle_below :: "directory list \<Rightarrow> string \<Rightarrow> bool" where
  "on_cycle_below dirs x \<longleftrightarrow>
     (\<exists>c. (c, x) \<in> (child_rel dirs)\<^sup>* \<and> (c, c) \<in> (child_rel dirs)\<^sup>+)"

definition descendants_of :: "directory list \<Rightarrow> string \<Rightarrow> string set" where
  "descendants_of dirs x = {c. (c, x) \<in> (child_rel dirs)\<^sup>+}"

text \<open>
  The conditions under which the loop's result has no repetition: no queued identifier
  lies below another one, on a store without cycles whose identifiers are unique.
\<close>

definition independent :: "directory list \<Rightarrow> string list \<Rightarrow> bool" where
  "independent dirs q \<longleftrightarrow>
     distinct q \<and> (\<forall>x \<in> set q. \<forall>y \<in> set q. x \<noteq> y \<longrightarrow> (x, y) \<notin> (child_rel dirs)\<^sup>*)"

definition tree_like :: "directory list \<Rightarrow> bool" where
  "tree_like dirs \<longleftrightarrow> acyclic (child_rel dirs) \<and> distinct (map d_id dirs)"

section \<open>A small store for the concrete instances\<close>

definition mk_dir :: "string \<Rightarrow> string \<Rightarrow> string option \<Rightarrow> bool \<Rightarrow> directory" where
  "mk_dir i own par pub =
     \<lparr>d_id = i, d_name = i, d_owner_id = own, d_parent_id = par,
      d_path = ''/'' @ i, d_is_public = pub, d_created_at = 0\<rparr>"

definition mk_user :: "string \<Rightarrow> UserRole \<Rightarrow> user" where
  "mk_user i r = \<lparr>u_id = i, u_email = i @ ''@example.org'', u_role = r,
                  u_is_active = True, u_created_at = 0\<rparr>"

definition mk_perm :: "string \<Rightarrow> string \<Rightarrow> string \<Rightarrow> string list \<Rightarrow> permission" where
  "mk_perm i usr dir ps =
     \<lparr>p_id = i, p_user_id = usr, p_directory_id = dir, p_permissions = ps,
      p_granted_by = ''alice'', p_created_at = 0\<rparr>"

definition ex_dirs :: "directory list" where
  "ex_dirs = [mk_dir ''top'' ''alice'' None False,
              mk_dir ''docs'' ''alice'' (Some ''top'') False,
              mk_dir ''pub'' ''alice'' None True,
              mk_dir ''lost'' ''alice'' (Some ''gone'') False]"

definition ex_perms :: "permission list" where
  "ex_perms = [mk_perm ''g1'' ''bob'' ''docs'' [''read''],
               mk_perm ''g2'' ''bob'' ''top'' [''read'', ''write'', ''delete'']]"

definition ex_users :: "user list" where
  "ex_users = [mk_user ''alice'' USER, mk_user ''bob'' USER]"

definition ex_requests :: "grant_request list" where
  "ex_requests =
     [(\<lparr>pg_user_email = ''bob@example.org'', pg_permissions = [READ]\<rparr>,
       ''docs'', ''alice'', ''oid1'', 1),
      (\<lparr>pg_user_email = ''bob@example.org'', pg_permissions = [WRITE]\<rparr>,
       ''docs'', ''alice'', ''oid2'', 2)]"

definition mk_file :: "string \<Rightarrow> string \<Rightarrow> file_doc" where
  "mk_file i dir = \<lparr>f_id = i, f_filename = i, f_s3_key = ''k/'' @ i, f_directory_id = dir,
                    f_owner_id = ''alice''\<rparr>"

definition ex_chain :: "directory list" where
  "ex_chain = [mk_dir ''a'' ''alice'' None False,
               mk_dir ''b'' ''alice'' (Some ''a'') False,
               mk_dir ''c'' ''alice'' (Some ''b'') False,
               mk_dir ''z'' ''alice'' None False]"

definition ex_store :: store where
  "ex_store =
     \<lparr>st_dirs = ex_chain,
      st_files = [mk_file ''fa'' ''a'', mk_file ''fb'' ''b'', mk_file ''fc'' ''c'',
                  mk_file ''fz'' ''z''],
      st_perms = [mk_perm ''pa'' ''bob'' ''a'' [''read''], mk_perm ''pb'' ''bob'' ''b'' [''read''],
                  mk_perm ''pc'' ''bob'' ''c'' [''write''], mk_perm ''pz'' ''bob'' ''z'' [''read'']]\<rparr>"


section \<open>Basic facts about the walk and the scan\<close>

lemmas ex_defs = ex_dirs_def ex_perms_def mk_dir_def mk_user_def mk_perm_def
  find_one_def is_owner_def is_public_def has_permission_def get_role_permissions_def

lemma build_path_dangling:
  "dangling_chain dirs d \<Longrightarrow> \<exists>rest. build_path dirs d acc = Some (acc @ rest) \<and> rest \<noteq> []
      \<and> find_one (\<lambda>x. d_id x = last rest) dirs = None"
proof (induction arbitrary: acc rule: dangling_chain.induct)
  case (broken_here d)
  then show ?case by (subst build_path.simps) simp
next
  case (broken_above d nxt)
  from broken_above.IH [of "acc @ [the (d_parent_id d)]"]
  obtain rest where r:
    "build_path dirs nxt (acc @ [the (d_parent_id d)])
       = Some ((acc @ [the (d_parent_id d)]) @ rest)"
    "rest \<noteq> []" "find_one (\<lambda>x. d_id x = last rest) dirs = None"
    by blast
  show ?case
    using broken_above.hyps r
    by (subst build_path.simps) simp
qed

lemma scan_path_first:
  "\<forall>x \<in> set pre. find_one (\<lambda>p. p_user_id p = uid \<and> p_directory_id p = x) perms = None \<Longrightarrow>
   find_one (\<lambda>p. p_user_id p = uid \<and> p_directory_id p = a) perms = Some g \<Longrightarrow>
   scan_path perms uid pv (pre @ a # post) = (pv \<in> set (p_permissions g))"
  by (induction pre) simp_all

lemma scan_path_none:
  "\<forall>x \<in> set path. find_one (\<lambda>p. p_user_id p = uid \<and> p_directory_id p = x) perms = None \<Longrightarrow>
   scan_path perms uid pv path = False"
  by (induction path) simp_all

lemma find_one_owner:
  "find_one (\<lambda>d. d_id d = i) dirs = Some D \<Longrightarrow> d_owner_id D = uid \<Longrightarrow> is_owner dirs i uid"
  unfolding is_owner_def find_one_def
  by (induction dirs) (auto split: if_splits)

lemma not_owner_find_one:
  "\<not> is_owner dirs i uid \<Longrightarrow> find_one (\<lambda>d. d_id d = i) dirs = Some D \<Longrightarrow> d_owner_id D \<noteq> uid"
  using find_one_owner by blast


lemma find_one_SomeD: "find_one q xs = Some x \<Longrightarrow> x \<in> set xs \<and> q x"
  unfolding find_one_def by (induction xs) (auto split: if_splits)

lemma scan_path_first_grant:
  "scan_path perms uid pv path
     = (case first_grant perms uid path of None \<Rightarrow> False
        | Some g \<Rightarrow> pv \<in> set (p_permissions g))"
  by (induction path) (auto split: option.splits)

lemma build_path_prefix:
  assumes "build_path dirs d acc = Some p"
  shows "\<exists>rest. p = acc @ rest"
proof (rule build_path.raw_induct
         [where P = "\<lambda>dirs d acc p. \<exists>rest. p = acc @ rest", OF _ assms], goal_cases)
  case (1 self dirs current path_ids y)
  show ?case
  proof (cases "truthy (d_parent_id current)")
    case False
    with 1(2) show ?thesis by simp
  next
    case True
    show ?thesis
    proof (cases "find_one (\<lambda>d. d_id d = the (d_parent_id current)) dirs")
      case None
      with True 1(2) show ?thesis by auto
    next
      case (Some nxt)
      with True 1(2) have "self dirs nxt (path_ids @ [the (d_parent_id current)]) = Some y"
        by simp
      from 1(1) [OF this] show ?thesis by auto
    qed
  qed
qed

section \<open>The walk follows the ancestor chain\<close>

lemma build_path_follows_chain:
  "ancestor_chain dirs d ups \<Longrightarrow> build_path dirs d acc = Some (acc @ ups)"
proof (induction arbitrary: acc rule: ancestor_chain.induct)
  case (at_root d)
  then show ?case by (subst build_path.simps) simp
next
  case (at_broken_link d p)
  then show ?case by (subst build_path.simps) simp
next
  case (at_parent d p nxt ups)
  from at_parent.IH [of "acc @ [p]"] at_parent.hyps(1,2,3)
  show ?case by (subst build_path.simps) simp
qed

lemma build_path_is_chain:
  assumes "build_path dirs d acc = Some path_ids"
  shows "\<exists>ups. path_ids = acc @ ups \<and> ancestor_chain dirs d ups"
proof (rule build_path.raw_induct
         [where P = "\<lambda>dirs d acc path_ids.
                       \<exists>ups. path_ids = acc @ ups \<and> ancestor_chain dirs d ups",
          OF _ assms], goal_cases)
  case (1 self dirs current acc path_ids)
  show ?case
  proof (cases "truthy (d_parent_id current)")
    case False
    with 1(2) have "path_ids = acc @ []" by simp
    with False show ?thesis by (blast intro: ancestor_chain.at_root)
  next
    case True
    then obtain p where p: "d_parent_id current = Some p" "p \<noteq> []"
      by (cases "d_parent_id current") auto
    show ?thesis
    proof (cases "find_one (\<lambda>d. d_id d = p) dirs")
      case None
      with True p 1(2) have "path_ids = acc @ [p]" by simp
      with p None show ?thesis by (blast intro: ancestor_chain.at_broken_link)
    next
      case (Some nxt)
      with True p 1(2) have "self dirs nxt (acc @ [p]) = Some path_ids" by simp
      from 1(1) [OF this] obtain ups where
        a: "path_ids = (acc @ [p]) @ ups" "ancestor_chain dirs nxt ups" by blast
      from p Some a(2) have "ancestor_chain dirs current (p # ups)"
        by (rule ancestor_chain.at_parent)
      with a(1) show ?thesis by auto
    qed
  qed
qed

lemma build_path_iff_chain:
  "build_path dirs d [i] = Some path_ids
     \<longleftrightarrow> (\<exists>ups. path_ids = i # ups \<and> ancestor_chain dirs d ups)"
  using build_path_is_chain [of dirs d "[i]" path_ids]
        build_path_follows_chain [of dirs d _ "[i]"]
  by auto

lemma chain_starts_at_parent:
  assumes "ancestor_chain dirs d ups" and "d_parent_id d = Some p" and "p \<noteq> []"
  shows "\<exists>rest. ups = p # rest"
  using assms by (cases rule: ancestor_chain.cases) auto

section \<open>The visible directories\<close>

lemma public_loop_sound:
  assumes "public_loop ds (result, ids) = (result', ids')"
      and "ids = d_id ` set result"
      and "\<forall>d \<in> set ds. d_is_public d"
  shows "ids' = d_id ` set result'
       \<and> d_id ` set result' = d_id ` set result \<union> d_id ` set ds
       \<and> set result \<subseteq> set result' \<and> set result' \<subseteq> set result \<union> set ds
       \<and> (distinct (map d_id result) \<longrightarrow> distinct (map d_id result'))"
  using assms
proof (induction ds arbitrary: result ids)
  case Nil
  then show ?case by auto
next
  case (Cons d ds)
  show ?case
  proof (cases "d_id d \<in> ids")
    case True
    with Cons.prems have "public_loop ds (result, ids) = (result', ids')" by simp
    from Cons.IH [OF this] Cons.prems(2,3) True show ?thesis by auto
  next
    case False
    have same: "d\<lparr>d_is_public := True\<rparr> = d" using Cons.prems(3) by simp
    from False Cons.prems same
    have run: "public_loop ds (result @ [d], insert (d_id d) ids) = (result', ids')" by simp
    have "insert (d_id d) ids = d_id ` set (result @ [d])" using Cons.prems(2) by auto
    from Cons.IH [OF run this] Cons.prems(2,3) False show ?thesis by auto
  qed
qed

lemma shared_loop_eq:
  "shared_loop ds ids result = result @ filter (\<lambda>d. d_id d \<notin> ids) ds"
  by (induction ds arbitrary: result) simp_all

lemma get_user_directories_unfold:
  assumes "user_role \<noteq> SUPER_ADMIN"
      and "public_loop (filter d_is_public dirs)
             (filter (\<lambda>d. d_owner_id d = user_id) dirs,
              set (map d_id (filter (\<lambda>d. d_owner_id d = user_id) dirs))) = (result, ids)"
  shows "get_user_directories dirs perms user_id user_role
         = result @ filter (\<lambda>d. d_id d \<notin> ids)
             (filter (\<lambda>d. d_id d \<in> p_directory_id ` {p \<in> set perms. p_user_id p = user_id}) dirs)"
proof -
  let ?sh = "map p_directory_id (filter (\<lambda>p. p_user_id p = user_id) perms)"
  have s: "set ?sh = p_directory_id ` {p \<in> set perms. p_user_id p = user_id}" by auto
  have e: "?sh = [] \<Longrightarrow> filter (\<lambda>d. d_id d \<in> set ?sh) dirs = []" by simp
  have "get_user_directories dirs perms user_id user_role
      = (if ?sh \<noteq> [] then shared_loop (filter (\<lambda>d. d_id d \<in> set ?sh) dirs) ids result
         else result)"
    unfolding get_user_directories_def find_many_def Let_def using assms by simp
  also have "\<dots> = result @ filter (\<lambda>d. d_id d \<notin> ids) (filter (\<lambda>d. d_id d \<in> set ?sh) dirs)"
    using e by (simp only: shared_loop_eq split: if_splits) simp
  finally show ?thesis unfolding s .
qed

lemma visible_set:
  assumes role: "user_role \<noteq> SUPER_ADMIN" and dist: "distinct (map d_id dirs)"
  shows "set (get_user_directories dirs perms user_id user_role)
           = {d \<in> set dirs. visible perms user_id d}
       \<and> distinct (map d_id (get_user_directories dirs perms user_id user_role))"
proof -
  let ?owned = "filter (\<lambda>d. d_owner_id d = user_id) dirs"
  let ?public = "filter d_is_public dirs"
  let ?S = "p_directory_id ` {p \<in> set perms. p_user_id p = user_id}"
  let ?shared = "filter (\<lambda>d. d_id d \<in> ?S) dirs"
  obtain result ids where pl:
    "public_loop ?public (?owned, set (map d_id ?owned)) = (result, ids)"
    by (cases "public_loop ?public (?owned, set (map d_id ?owned))") blast
  have inj: "inj_on d_id (set dirs)" using dist by (simp add: distinct_map)
  have down: "distinct (map d_id ?owned)" using dist by (rule distinct_map_filter)
  from public_loop_sound [OF pl]
  have ids: "ids = d_id ` set result"
    and idr: "d_id ` set result = d_id ` set ?owned \<union> d_id ` set ?public"
    and lo: "set ?owned \<subseteq> set result" and hi: "set result \<subseteq> set ?owned \<union> set ?public"
    and dr: "distinct (map d_id result)"
    using down by auto
  have sub: "set result \<subseteq> set dirs" using hi by auto
  have mem: "d \<in> set result" if "d \<in> set dirs" "d_id d \<in> ids" for d
  proof -
    from that(2) ids obtain r where r: "r \<in> set result" "d_id r = d_id d" by auto
    with sub have "r \<in> set dirs" by auto
    with inj that(1) r(2) have "r = d" by (auto dest: inj_onD)
    with r(1) show ?thesis by simp
  qed
  have res: "set result = set ?owned \<union> set ?public"
  proof
    show "set result \<subseteq> set ?owned \<union> set ?public" by (rule hi)
  next
    show "set ?owned \<union> set ?public \<subseteq> set result"
    proof
      fix d assume d: "d \<in> set ?owned \<union> set ?public"
      then have "d \<in> set dirs" by auto
      moreover have "d_id d \<in> ids" using d ids idr by blast
      ultimately show "d \<in> set result" by (rule mem)
    qed
  qed
  have g: "get_user_directories dirs perms user_id user_role
         = result @ filter (\<lambda>d. d_id d \<notin> ids) ?shared"
    using role pl by (rule get_user_directories_unfold)
  have vis: "visible perms user_id d
           \<longleftrightarrow> d_owner_id d = user_id \<or> d_is_public d \<or> d_id d \<in> ?S" for d
    unfolding visible_def by (auto simp: image_iff)
  have one: "set (get_user_directories dirs perms user_id user_role)
           = {d \<in> set dirs. visible perms user_id d}"
  proof
    show "set (get_user_directories dirs perms user_id user_role)
            \<subseteq> {d \<in> set dirs. visible perms user_id d}"
      unfolding g using res by (auto simp: vis)
  next
    show "{d \<in> set dirs. visible perms user_id d}
            \<subseteq> set (get_user_directories dirs perms user_id user_role)"
    proof
      fix d assume "d \<in> {d \<in> set dirs. visible perms user_id d}"
      then have d: "d \<in> set dirs" and v: "visible perms user_id d" by auto
      show "d \<in> set (get_user_directories dirs perms user_id user_role)"
      proof (cases "d_id d \<in> ids")
        case True
        with d have "d \<in> set result" by (rule mem)
        then show ?thesis unfolding g by simp
      next
        case False
        then have "d \<notin> set result" using ids by auto
        with res d v have "d_id d \<in> ?S" by (auto simp: vis)
        with d False show ?thesis unfolding g by simp
      qed
    qed
  qed
  have two: "distinct (map d_id (get_user_directories dirs perms user_id user_role))"
  proof -
    have "distinct (map d_id (filter (\<lambda>d. d_id d \<notin> ids) ?shared))"
      using dist by (simp add: distinct_map_filter)
    moreover have "d_id ` set result \<inter> d_id ` set (filter (\<lambda>d. d_id d \<notin> ids) ?shared) = {}"
      unfolding ids by (auto simp: image_iff)
    ultimately show ?thesis unfolding g using dr by simp
  qed
  from one two show ?thesis by blast
qed

lemma super_admin_sees_all:
  "get_user_directories dirs perms user_id SUPER_ADMIN = dirs"
  by (simp add: get_user_directories_def find_many_def)

lemma granted_is_listed:
  assumes "D \<in> set dirs" and "g \<in> set perms" and "p_user_id g = user_id"
      and "p_directory_id g = d_id D" and "user_role \<noteq> SUPER_ADMIN"
  shows "d_id D \<in> d_id ` set (get_user_directories dirs perms user_id user_role)"
proof -
  let ?owned = "filter (\<lambda>d. d_owner_id d = user_id) dirs"
  obtain result ids where pl:
    "public_loop (filter d_is_public dirs) (?owned, set (map d_id ?owned)) = (result, ids)"
    by (cases "public_loop (filter d_is_public dirs) (?owned, set (map d_id ?owned))") blast
  from public_loop_sound [OF pl] have ids: "ids = d_id ` set result" by auto
  note g = get_user_directories_unfold [OF assms(5) pl, of perms]
  have sh: "d_id D \<in> p_directory_id ` {p \<in> set perms. p_user_id p = user_id}"
    using assms(2,3,4) by (auto simp: image_iff)
  show ?thesis
  proof (cases "d_id D \<in> ids")
    case True
    then show ?thesis unfolding g using ids by auto
  next
    case False
    with assms(1) sh have "D \<in> set (filter (\<lambda>d. d_id d \<notin> ids)
             (filter (\<lambda>d. d_id d \<in> p_directory_id ` {p \<in> set perms. p_user_id p = user_id})
                dirs))" by simp
    then show ?thesis unfolding g by (simp add: image_iff) blast
  qed
qed

section \<open>The assembly loop\<close>

lemma dict_set_fresh: "k \<notin> fst ` set m \<Longrightarrow> dict_set k v m = m @ [(k, v)]"
  by (induction m) auto

lemma build_dir_map_fold:
  "distinct (map d_id ds) \<Longrightarrow> d_id ` set ds \<inter> fst ` set m = {} \<Longrightarrow>
   foldl (\<lambda>m d. dict_set (d_id d) (new_node d) m) m ds = m @ map (\<lambda>d. (d_id d, new_node d)) ds"
proof (induction ds arbitrary: m)
  case Nil
  then show ?case by simp
next
  case (Cons d ds)
  have fresh: "d_id d \<notin> fst ` set m" using Cons.prems(2) by auto
  have "d_id ` set ds \<inter> fst ` set (m @ [(d_id d, new_node d)]) = {}"
    using Cons.prems by auto
  with Cons.IH [of "m @ [(d_id d, new_node d)]"] Cons.prems(1) fresh
  show ?case by (simp add: dict_set_fresh)
qed

lemma build_dir_map_distinct:
  "distinct (map d_id ds) \<Longrightarrow> build_dir_map ds = map (\<lambda>d. (d_id d, new_node d)) ds"
  unfolding build_dir_map_def using build_dir_map_fold [of ds "[]"] by simp

lemma fst_append_child: "map fst (append_child p c h) = map fst h"
  by (induction h) (auto simp: append_child_def)

lemma map_of_append_child:
  "map_of (append_child p c h) q
     = map_option (\<lambda>n. if q = p then n\<lparr>t_children := t_children n @ [c]\<rparr> else n) (map_of h q)"
  by (induction h) (auto simp: append_child_def)

lemma keys_append_child: "fst ` set (append_child p c h) = fst ` set h"
  using fst_append_child [of p c h] by (metis list.set_map)

lemma attached_append_child: "attached (append_child p c h) k q = attached h k q"
  by (cases "map_of h k") (simp_all add: attached_def map_of_append_child keys_append_child)

lemma is_root_append_child: "is_root (append_child p c h) k = is_root h k"
  by (cases "map_of h k") (simp_all add: is_root_def map_of_append_child keys_append_child)

lemma attach_loop_char:
  "attach_loop ks (h, roots) = (h', roots') \<Longrightarrow>
   map fst h' = map fst h
   \<and> (\<forall>q. map_of h' q
          = map_option (\<lambda>n. n\<lparr>t_children := t_children n @ filter (\<lambda>k. attached h k q) ks\<rparr>)
              (map_of h q))
   \<and> roots' = roots @ filter (is_root h) ks"
proof (induction ks arbitrary: h roots)
  case Nil
  then show ?case by (simp add: option.map_ident)
next
  case (Cons k ks)
  show ?case
  proof (cases "map_of h k")
    case None
    with Cons.prems have run: "attach_loop ks (h, roots) = (h', roots')" by simp
    have "\<And>q. \<not> attached h k q" "\<not> is_root h k"
      using None by (simp_all add: attached_def is_root_def)
    with Cons.IH [OF run] show ?thesis by simp
  next
    case (Some n)
    show ?thesis
    proof (cases "truthy (d_parent_id n) \<and> the (d_parent_id n) \<in> set (map fst h)")
      case True
      let ?p = "the (d_parent_id n)"
      from True Some Cons.prems
      have run: "attach_loop ks (append_child ?p k h, roots) = (h', roots')" by simp
      have a: "attached h k q \<longleftrightarrow> q = ?p" for q
        using Some True by (auto simp: attached_def)
      have r: "\<not> is_root h k" using Some True by (simp add: is_root_def)
      have m: "map_of h' q
          = map_option (\<lambda>n. n\<lparr>t_children := t_children n @ filter (\<lambda>k. attached h k q) (k # ks)\<rparr>)
              (map_of h q)" for q
      proof -
        from Cons.IH [OF run]
        have "map_of h' q = map_option
                (\<lambda>n. n\<lparr>t_children := t_children n @ filter (\<lambda>k. attached h k q) ks\<rparr>)
                (map_of (append_child ?p k h) q)"
          by (simp add: attached_append_child)
        then show ?thesis
          by (cases "map_of h q") (simp_all add: map_of_append_child a)
      qed
      from Cons.IH [OF run] r m show ?thesis
        by (simp add: fst_append_child is_root_append_child)
    next
      case False
      from False Some Cons.prems
      have run: "attach_loop ks (h, roots @ [k]) = (h', roots')"
        by (auto split: if_splits)
      have a: "\<not> attached h k q" for q
        using Some False by (auto simp: attached_def)
      have r: "is_root h k" using Some False by (simp add: is_root_def)
      from Cons.IH [OF run] a r show ?thesis by simp
    qed
  qed
qed

lemma truncate_new_node: "directory.truncate (new_node d) = d"
  by (simp add: new_node_def directory.truncate_def directory.extend_def)

lemma new_node_fields:
  "d_parent_id (new_node d) = d_parent_id d" "t_children (new_node d) = []"
  by (simp_all add: new_node_def directory.extend_def tree_node.fields_def)

lemma truncate_children_update:
  "directory.truncate (n\<lparr>t_children := cs\<rparr>) = directory.truncate (n :: tree_node)"
  by (simp add: directory.truncate_def)

lemma map_of_nodes:
  "distinct (map d_id ds) \<Longrightarrow> n \<in> set ds \<Longrightarrow>
   map_of (map (\<lambda>d. (d_id d, new_node d)) ds) (d_id n) = Some (new_node n)"
  by (induction ds) (auto simp: image_iff)

lemma map_of_nodes_None:
  "q \<notin> d_id ` set ds \<Longrightarrow> map_of (map (\<lambda>d. (d_id d, new_node d)) ds) q = None"
  by (induction ds) auto

lemma visible_to_bob: "get_user_directories ex_dirs ex_perms ''bob'' USER
     = [mk_dir ''pub'' ''alice'' None True, mk_dir ''top'' ''alice'' None False,
        mk_dir ''docs'' ''alice'' (Some ''top'') False]"
  by (simp add: get_user_directories_def find_many_def ex_dirs_def ex_perms_def mk_dir_def
        mk_perm_def)

section \<open>The descendant loop\<close>

lemma foldl_children:
  "foldl (\<lambda>(r, q) child. (r @ [d_id child], q @ [d_id child])) (r, q) cs
     = (r @ map d_id cs, q @ map d_id cs)"
  by (induction cs arbitrary: r q) simp_all

lemma descendants_loop_unfold:
  "descendants_loop dirs queue result =
     (case queue of
        [] \<Rightarrow> Some result
      | p # rest \<Rightarrow>
          descendants_loop dirs (rest @ children_ids dirs p) (result @ children_ids dirs p))"
  by (subst descendants_loop.simps)
     (simp add: foldl_children children_ids_def split: list.splits)

lemma children_ids_stored: "set (children_ids dirs p) \<subseteq> d_id ` set dirs"
  by (auto simp: children_ids_def find_many_def)

lemma descendants_loop_stored:
  assumes "descendants_loop dirs queue result = Some out"
  shows "set out \<subseteq> set result \<union> d_id ` set dirs"
proof (rule descendants_loop.raw_induct
         [where P = "\<lambda>dirs queue result out. set out \<subseteq> set result \<union> d_id ` set dirs",
          OF _ assms], goal_cases)
  case (1 self dirs queue result out)
  show ?case
  proof (cases queue)
    case Nil
    with 1(2) show ?thesis by simp
  next
    case (Cons p rest)
    with 1(2) have "self dirs (rest @ children_ids dirs p) (result @ children_ids dirs p)
                      = Some out"
      by (simp add: foldl_children children_ids_def)
    from 1(1) [OF this] children_ids_stored [of dirs p] show ?thesis by auto
  qed
qed

lemma ex_chain_descendants: "get_descendant_ids ex_chain ''a'' = Some [''b'', ''c'']"
  by (simp add: get_descendant_ids_def descendants_loop_unfold children_ids_def find_many_def
        ex_chain_def mk_dir_def)

section \<open>Stores without cycles\<close>

lemma finite_child_rel: "finite (child_rel dirs)"
proof -
  have "child_rel dirs \<subseteq> (\<lambda>d. (d_id d, the (d_parent_id d))) ` set dirs"
    by (auto simp: child_rel_def image_iff)
  then show ?thesis by (rule finite_subset) simp
qed

text \<open>
  On a store whose parent links have no cycle, the walk of \<open>check_permission\<close>
  returns from every stored directory.
\<close>

lemma build_path_returns:
  assumes ac: "acyclic (child_rel dirs)" and cur: "current \<in> set dirs"
  shows "\<exists>path_ids. build_path dirs current acc = Some path_ids"
proof -
  have wfc: "wf (inv_image ((child_rel dirs)\<inverse>) d_id)"
    using finite_child_rel ac by (intro wf_inv_image finite_acyclic_wf_converse)
  show ?thesis
    using cur
  proof (induction current arbitrary: acc rule: wf_induct_rule [OF wfc])
    case (1 current)
    show ?case
    proof (cases "truthy (d_parent_id current)")
      case False
      then show ?thesis by (subst build_path.simps) simp
    next
      case True
      then obtain p where p: "d_parent_id current = Some p" by (cases "d_parent_id current") auto
      show ?thesis
      proof (cases "find_one (\<lambda>d. d_id d = p) dirs")
        case None
        with True p show ?thesis by (subst build_path.simps) simp
      next
        case (Some nxt)
        from find_one_SomeD [OF Some] have nxt: "nxt \<in> set dirs" "d_id nxt = p" by simp_all
        from 1(2) p nxt(2) have "(d_id current, d_id nxt) \<in> child_rel dirs"
          by (auto simp: child_rel_def)
        then have "(nxt, current) \<in> inv_image ((child_rel dirs)\<inverse>) d_id"
          by (simp add: inv_image_def)
        from 1(1) [OF this nxt(1), of "acc @ [p]"] True p Some
        show ?thesis by (subst build_path.simps) simp
      qed
    qed
  qed
qed

lemma ex_dirs_acyclic: "acyclic (child_rel ex_dirs)"
proof -
  let ?f = "\<lambda>x. if x = ''top'' \<or> x = ''gone'' then 1 else (0::nat)"
  have "child_rel ex_dirs \<subseteq> measure ?f"
    by (auto simp: child_rel_def ex_dirs_def mk_dir_def)
  then have "wf (child_rel ex_dirs)" by (rule wf_subset [OF wf_measure])
  then show ?thesis by (rule wf_acyclic)
qed

section \<open>Ownership\<close>

text \<open>
  C1, as stated, fails for the request-level checker: a user-role owner asking to delete
  the owner's own private directory is rejected by the role gate, which comes before the
  ownership test for every role but admin.
\<close>

theorem owner_user_role_delete_denied:
  "d_owner_id (mk_dir ''top'' ''alice'' None False) = u_id (mk_user ''alice'' USER)
   \<and> PermissionChecker DELETE [mk_dir ''top'' ''alice'' None False] [] ''top''
        (mk_user ''alice'' USER)
      = Some (Inl (HTTPException 403 ''Your role does not have delete permission''))"
  by (simp add: PermissionChecker_def ex_defs)

text \<open>
  C1 (amended): for the owner of an existing directory, \<open>check_permission\<close> allows
  every action whatever the grants and the role; \<open>PermissionChecker\<close> allows it when
  the role is super-admin or admin or the role table carries the action, and otherwise
  (the directory not being public for a read or write) raises the role gate's 403.
\<close>

theorem owner_access:
  assumes "find_one (\<lambda>d. d_id d = directory_id) dirs = Some D"
      and "d_owner_id D = u_id current_user"
  shows "check_permission dirs perms (u_id current_user) directory_id action = Some True
       \<and> (u_role current_user = SUPER_ADMIN \<or> u_role current_user = ADMIN
            \<or> has_permission (u_role current_user) (ptype_value action)
          \<longrightarrow> PermissionChecker action dirs perms directory_id current_user = Some (Inr True))
       \<and> (u_role current_user \<noteq> SUPER_ADMIN \<and> u_role current_user \<noteq> ADMIN
            \<and> \<not> has_permission (u_role current_user) (ptype_value action)
            \<and> \<not> ((action = READ \<or> action = WRITE) \<and> d_is_public D)
          \<longrightarrow> PermissionChecker action dirs perms directory_id current_user
                = Some (Inl (HTTPException 403
                    (''Your role does not have '' @ ptype_value action @ '' permission''))))"
proof -
  have own: "is_owner dirs directory_id (u_id current_user)"
    using assms by (rule find_one_owner)
  have pub: "is_public dirs directory_id = d_is_public D"
    using assms(1) by (simp add: is_public_def)
  have a: "check_permission dirs perms (u_id current_user) directory_id action = Some True"
    using assms by (simp add: check_permission_def)
  have b: "u_role current_user = SUPER_ADMIN \<or> u_role current_user = ADMIN
            \<or> has_permission (u_role current_user) (ptype_value action)
          \<longrightarrow> PermissionChecker action dirs perms directory_id current_user = Some (Inr True)"
    using own by (auto simp: PermissionChecker_def)
  have c: "u_role current_user \<noteq> SUPER_ADMIN \<and> u_role current_user \<noteq> ADMIN
            \<and> \<not> has_permission (u_role current_user) (ptype_value action)
            \<and> \<not> ((action = READ \<or> action = WRITE) \<and> d_is_public D)
          \<longrightarrow> PermissionChecker action dirs perms directory_id current_user
                = Some (Inl (HTTPException 403
                    (''Your role does not have '' @ ptype_value action @ '' permission'')))"
    using pub by (auto simp: PermissionChecker_def)
  from a b c show ?thesis by blast
qed

theorem owner_access_witness:
  "check_permission ex_dirs ex_perms ''alice'' ''top'' DELETE = Some True
   \<and> PermissionChecker READ ex_dirs ex_perms ''top'' (mk_user ''alice'' USER) = Some (Inr True)
   \<and> PermissionChecker DELETE ex_dirs ex_perms ''top'' (mk_user ''alice'' USER)
       = Some (Inl (HTTPException 403 ''Your role does not have delete permission''))"
proof -
  have f: "find_one (\<lambda>d. d_id d = ''top'') ex_dirs = Some (mk_dir ''top'' ''alice'' None False)"
    by (simp add: ex_defs)
  have o: "d_owner_id (mk_dir ''top'' ''alice'' None False) = u_id (mk_user ''alice'' USER)"
    by (simp add: ex_defs)
  show ?thesis
    using owner_access [OF f o, of ex_perms DELETE] owner_access [OF f o, of ex_perms READ]
    by (simp add: ex_defs)
qed

section \<open>Shadowing\<close>

lemma first_grant_decides:
  assumes "find_one (\<lambda>d. d_id d = directory_id) dirs = Some D"
      and "d_owner_id D \<noteq> user_id"
      and "build_path dirs D [directory_id] = Some (nearer @ a # farther)"
      and "\<forall>x \<in> set nearer.
             find_one (\<lambda>p. p_user_id p = user_id \<and> p_directory_id p = x) perms = None"
      and "find_one (\<lambda>p. p_user_id p = user_id \<and> p_directory_id p = a) perms = Some g"
  shows "check_permission dirs perms user_id directory_id action
           = Some (ptype_value action \<in> set (p_permissions g))
       \<and> (\<forall>perms'.
            (\<forall>x \<in> set (nearer @ [a]).
               find_one (\<lambda>p. p_user_id p = user_id \<and> p_directory_id p = x) perms'
               = find_one (\<lambda>p. p_user_id p = user_id \<and> p_directory_id p = x) perms)
            \<longrightarrow> check_permission dirs perms' user_id directory_id action
                  = check_permission dirs perms user_id directory_id action)
       \<and> (nearer = [] \<and> set (p_permissions g) = {''read''}
            \<longrightarrow> check_permission dirs perms user_id directory_id WRITE = Some False)"
proof -
  have res: "check_permission dirs ps user_id directory_id act
           = Some (ptype_value act \<in> set (p_permissions g))"
    if "\<forall>x \<in> set nearer.
             find_one (\<lambda>p. p_user_id p = user_id \<and> p_directory_id p = x) ps = None"
       "find_one (\<lambda>p. p_user_id p = user_id \<and> p_directory_id p = a) ps = Some g"
    for ps act
    using assms(1-3) scan_path_first [OF that]
    by (simp add: check_permission_def)
  have one: "check_permission dirs perms user_id directory_id action
           = Some (ptype_value action \<in> set (p_permissions g))"
    using res [OF assms(4,5)] .
  have two: "check_permission dirs perms' user_id directory_id action
                  = check_permission dirs perms user_id directory_id action"
    if "\<forall>x \<in> set (nearer @ [a]).
               find_one (\<lambda>p. p_user_id p = user_id \<and> p_directory_id p = x) perms'
               = find_one (\<lambda>p. p_user_id p = user_id \<and> p_directory_id p = x) perms"
    for perms'
  proof -
    from that assms(4)
    have n: "\<forall>x \<in> set nearer.
             find_one (\<lambda>p. p_user_id p = user_id \<and> p_directory_id p = x) perms' = None"
      by simp
    from that assms(5)
    have g: "find_one (\<lambda>p. p_user_id p = user_id \<and> p_directory_id p = a) perms' = Some g"
      by simp
    show ?thesis using res [OF n g] one by simp
  qed
  have three: "nearer = [] \<and> set (p_permissions g) = {''read''}
            \<longrightarrow> check_permission dirs perms user_id directory_id WRITE = Some False"
    using res [OF assms(4,5), of WRITE] by simp
  from one two three show ?thesis by blast
qed


lemma parent_grant_inherited:
  assumes "find_one (\<lambda>d. d_id d = directory_id) dirs = Some D"
      and "d_owner_id D \<noteq> user_id"
      and "build_path dirs D [directory_id] = Some path_ids"
      and "d_parent_id D = Some p" and "p \<noteq> []"
      and "find_one (\<lambda>g. p_user_id g = user_id \<and> p_directory_id g = directory_id) perms = None"
      and "find_one (\<lambda>g. p_user_id g = user_id \<and> p_directory_id g = p) perms = Some g"
  shows "check_permission dirs perms user_id directory_id action
           = Some (ptype_value action \<in> set (p_permissions g))"
proof -
  from build_path_is_chain [OF assms(3)] obtain ups where
    u: "path_ids = [directory_id] @ ups" "ancestor_chain dirs D ups" by blast
  from chain_starts_at_parent [OF u(2) assms(4,5)] obtain rest where "ups = p # rest" ..
  with u(1) assms(3)
  have bp: "build_path dirs D [directory_id] = Some ([directory_id] @ p # rest)" by simp
  have n: "\<forall>x \<in> set [directory_id].
             find_one (\<lambda>g. p_user_id g = user_id \<and> p_directory_id g = x) perms = None"
    using assms(6) by simp
  from first_grant_decides [OF assms(1,2) bp n assms(7)] show ?thesis by blast
qed

text \<open>
  C2: for a non-owner of an existing directory the walk returns on every store without
  cycles, and what it returns is the target followed by its ancestor chain through the
  \<open>parent_id\<close> links, nearest first. Whenever the first identifier of that path with
  a grant for the user is \<open>a\<close>, the answer of \<open>check_permission\<close> is whether that
  grant's capabilities contain the action, it stays the same under any change of the
  grants on farther ancestors, and a nearest grant of exactly read on the target
  answers a write with deny, whatever an ancestor grants. A user without a grant on
  the target is answered by the grant on the target's parent.
\<close>

theorem first_grant_authoritative:
  assumes "find_one (\<lambda>d. d_id d = directory_id) dirs = Some D"
      and "d_owner_id D \<noteq> user_id"
  shows "(acyclic (child_rel dirs) \<longrightarrow>
            (\<exists>path_ids. build_path dirs D [directory_id] = Some path_ids))
       \<and> (\<forall>path_ids. build_path dirs D [directory_id] = Some path_ids
             \<longleftrightarrow> (\<exists>ups. path_ids = directory_id # ups \<and> ancestor_chain dirs D ups))
       \<and> (\<forall>nearer a farther g.
            build_path dirs D [directory_id] = Some (nearer @ a # farther)
            \<and> (\<forall>x \<in> set nearer.
                  find_one (\<lambda>p. p_user_id p = user_id \<and> p_directory_id p = x) perms = None)
            \<and> find_one (\<lambda>p. p_user_id p = user_id \<and> p_directory_id p = a) perms = Some g
            \<longrightarrow> check_permission dirs perms user_id directory_id action
                   = Some (ptype_value action \<in> set (p_permissions g))
               \<and> (\<forall>perms'.
                    (\<forall>x \<in> set (nearer @ [a]).
                       find_one (\<lambda>p. p_user_id p = user_id \<and> p_directory_id p = x) perms'
                       = find_one (\<lambda>p. p_user_id p = user_id \<and> p_directory_id p = x) perms)
                    \<longrightarrow> check_permission dirs perms' user_id directory_id action
                          = check_permission dirs perms user_id directory_id action)
               \<and> (nearer = [] \<and> set (p_permissions g) = {''read''}
                    \<longrightarrow> check_permission dirs perms user_id directory_id WRITE = Some False))
       \<and> (\<forall>path_ids p g.
            build_path dirs D [directory_id] = Some path_ids
            \<and> d_parent_id D = Some p \<and> p \<noteq> []
            \<and> find_one (\<lambda>g. p_user_id g = user_id \<and> p_directory_id g = directory_id) perms
                = None
            \<and> find_one (\<lambda>g. p_user_id g = user_id \<and> p_directory_id g = p) perms = Some g
            \<longrightarrow> check_permission dirs perms user_id directory_id action
                   = Some (ptype_value action \<in> set (p_permissions g)))"
proof -
  have stored: "D \<in> set dirs" using find_one_SomeD [OF assms(1)] by simp
  have returns: "acyclic (child_rel dirs) \<longrightarrow>
            (\<exists>path_ids. build_path dirs D [directory_id] = Some path_ids)"
    using build_path_returns [OF _ stored] by blast
  have chain: "\<forall>path_ids. build_path dirs D [directory_id] = Some path_ids
             \<longleftrightarrow> (\<exists>ups. path_ids = directory_id # ups \<and> ancestor_chain dirs D ups)"
    by (simp add: build_path_iff_chain)
  have decides: "\<forall>nearer a farther g.
            build_path dirs D [directory_id] = Some (nearer @ a # farther)
            \<and> (\<forall>x \<in> set nearer.
                  find_one (\<lambda>p. p_user_id p = user_id \<and> p_directory_id p = x) perms = None)
            \<and> find_one (\<lambda>p. p_user_id p = user_id \<and> p_directory_id p = a) perms = Some g
            \<longrightarrow> check_permission dirs perms user_id directory_id action
                   = Some (ptype_value action \<in> set (p_permissions g))
               \<and> (\<forall>perms'.
                    (\<forall>x \<in> set (nearer @ [a]).
                       find_one (\<lambda>p. p_user_id p = user_id \<and> p_directory_id p = x) perms'
                       = find_one (\<lambda>p. p_user_id p = user_id \<and> p_directory_id p = x) perms)
                    \<longrightarrow> check_permission dirs perms' user_id directory_id action
                          = check_permission dirs perms user_id directory_id action)
               \<and> (nearer = [] \<and> set (p_permissions g) = {''read''}
                    \<longrightarrow> check_permission dirs perms user_id directory_id WRITE = Some False)"
  proof (intro allI impI, elim conjE)
    fix nearer a farther g
    assume "build_path dirs D [directory_id] = Some (nearer @ a # farther)"
      and "\<forall>x \<in> set nearer.
             find_one (\<lambda>p. p_user_id p = user_id \<and> p_directory_id p = x) perms = None"
      and "find_one (\<lambda>p. p_user_id p = user_id \<and> p_directory_id p = a) perms = Some g"
    then show "check_permission dirs perms user_id directory_id action
                   = Some (ptype_value action \<in> set (p_permissions g))
               \<and> (\<forall>perms'.
                    (\<forall>x \<in> set (nearer @ [a]).
                       find_one (\<lambda>p. p_user_id p = user_id \<and> p_directory_id p = x) perms'
                       = find_one (\<lambda>p. p_user_id p = user_id \<and> p_directory_id p = x) perms)
                    \<longrightarrow> check_permission dirs perms' user_id directory_id action
                          = check_permission dirs perms user_id directory_id action)
               \<and> (nearer = [] \<and> set (p_permissions g) = {''read''}
                    \<longrightarrow> check_permission dirs perms user_id directory_id WRITE = Some False)"
      by (rule first_grant_decides [OF assms])
  qed
  have inherits: "\<forall>path_ids p g.
            build_path dirs D [directory_id] = Some path_ids
            \<and> d_parent_id D = Some p \<and> p \<noteq> []
            \<and> find_one (\<lambda>g. p_user_id g = user_id \<and> p_directory_id g = directory_id) perms
                = None
            \<and> find_one (\<lambda>g. p_user_id g = user_id \<and> p_directory_id g = p) perms = Some g
            \<longrightarrow> check_permission dirs perms user_id directory_id action
                   = Some (ptype_value action \<in> set (p_permissions g))"
  proof (intro allI impI, elim conjE)
    fix path_ids p g
    assume "build_path dirs D [directory_id] = Some path_ids"
      and "d_parent_id D = Some p" and "p \<noteq> []"
      and "find_one (\<lambda>g. p_user_id g = user_id \<and> p_directory_id g = directory_id) perms = None"
      and "find_one (\<lambda>g. p_user_id g = user_id \<and> p_directory_id g = p) perms = Some g"
    then show "check_permission dirs perms user_id directory_id action
                   = Some (ptype_value action \<in> set (p_permissions g))"
      by (rule parent_grant_inherited [OF assms])
  qed
  from returns chain decides inherits show ?thesis by (intro conjI)
qed

theorem first_grant_authoritative_witness:
  "build_path ex_dirs (mk_dir ''docs'' ''alice'' (Some ''top'') False) [''docs'']
       = Some [''docs'', ''top'']
   \<and> check_permission ex_dirs ex_perms ''bob'' ''docs'' WRITE = Some False
   \<and> check_permission ex_dirs ex_perms ''bob'' ''docs'' READ = Some True
   \<and> find_one (\<lambda>p. p_user_id p = ''bob'' \<and> p_directory_id p = ''top'') ex_perms
       = Some (mk_perm ''g2'' ''bob'' ''top'' [''read'', ''write'', ''delete''])
   \<and> check_permission ex_dirs [mk_perm ''g4'' ''fay'' ''top'' [''read'']] ''fay'' ''docs'' READ
       = Some True
   \<and> check_permission ex_dirs [mk_perm ''g4'' ''fay'' ''top'' [''read'']] ''fay'' ''docs'' WRITE
       = Some False"
proof -
  let ?D = "mk_dir ''docs'' ''alice'' (Some ''top'') False"
  let ?T = "mk_dir ''top'' ''alice'' None False"
  let ?g = "mk_perm ''g1'' ''bob'' ''docs'' [''read'']"
  let ?h = "mk_perm ''g4'' ''fay'' ''top'' [''read'']"
  have f: "find_one (\<lambda>d. d_id d = ''docs'') ex_dirs = Some ?D"
    by (simp add: ex_defs)
  have o: "d_owner_id ?D \<noteq> ''bob''" "d_owner_id ?D \<noteq> ''fay''"
    by (simp_all add: ex_defs)
  have par: "d_parent_id ?D = Some ''top''" "''top'' \<noteq> []" by (simp_all add: ex_defs)
  have top: "find_one (\<lambda>x. d_id x = ''top'') ex_dirs = Some ?T" by (simp add: ex_defs)
  have "ancestor_chain ex_dirs ?T []"
    by (rule ancestor_chain.at_root) (simp add: ex_defs)
  with par top have ch: "ancestor_chain ex_dirs ?D [''top'']"
    by (rule ancestor_chain.at_parent)
  note bob = first_grant_authoritative [OF f o(1)]
  note fay = first_grant_authoritative [OF f o(2)]
  from bob [of ex_perms READ] ex_dirs_acyclic
  have "\<exists>path_ids. build_path ex_dirs ?D [''docs''] = Some path_ids"
    by (rule conjunct1 [THEN mp])
  from bob [of ex_perms READ, THEN conjunct2, THEN conjunct1, rule_format,
            of "[''docs'', ''top'']"] ch
  have p: "build_path ex_dirs ?D [''docs''] = Some [''docs'', ''top'']" by simp
  then have p': "build_path ex_dirs ?D [''docs''] = Some ([] @ ''docs'' # [''top''])" by simp
  have n: "\<forall>x \<in> set []. find_one (\<lambda>p. p_user_id p = ''bob'' \<and> p_directory_id p = x) ex_perms
             = None"
    by simp
  have g: "find_one (\<lambda>p. p_user_id p = ''bob'' \<and> p_directory_id p = ''docs'') ex_perms = Some ?g"
    by (simp add: ex_defs)
  have r: "set (p_permissions ?g) = {''read''}" by (simp add: ex_defs)
  from bob [of ex_perms READ, THEN conjunct2, THEN conjunct2, THEN conjunct1, rule_format,
            of "[]" "''docs''" "[''top'']" ?g] p' n g
  have 2: "check_permission ex_dirs ex_perms ''bob'' ''docs'' READ = Some True"
    by (simp add: ex_defs)
  from bob [of ex_perms WRITE, THEN conjunct2, THEN conjunct2, THEN conjunct1, rule_format,
            of "[]" "''docs''" "[''top'']" ?g] p' n g r
  have 3: "check_permission ex_dirs ex_perms ''bob'' ''docs'' WRITE = Some False"
    by (simp add: ex_defs)
  have 4: "find_one (\<lambda>p. p_user_id p = ''bob'' \<and> p_directory_id p = ''top'') ex_perms
       = Some (mk_perm ''g2'' ''bob'' ''top'' [''read'', ''write'', ''delete''])"
    by (simp add: ex_defs)
  have none: "find_one (\<lambda>g. p_user_id g = ''fay'' \<and> p_directory_id g = ''docs'') [?h] = None"
    by (simp add: ex_defs)
  have some: "find_one (\<lambda>g. p_user_id g = ''fay'' \<and> p_directory_id g = ''top'') [?h] = Some ?h"
    by (simp add: ex_defs)
  from fay [of "[?h]" READ, THEN conjunct2, THEN conjunct2, THEN conjunct2, rule_format,
            of "[''docs'', ''top'']" "''top''" ?h] p par none some
  have 5: "check_permission ex_dirs [?h] ''fay'' ''docs'' READ = Some True"
    by (simp add: ex_defs)
  from fay [of "[?h]" WRITE, THEN conjunct2, THEN conjunct2, THEN conjunct2, rule_format,
            of "[''docs'', ''top'']" "''top''" ?h] p par none some
  have 6: "check_permission ex_dirs [?h] ''fay'' ''docs'' WRITE = Some False"
    by (simp add: ex_defs)
  from p 2 3 4 5 6 show ?thesis by simp
qed

section \<open>Role ceiling\<close>

text \<open>
  C3, as stated, fails on a public directory: the public test comes before the role
  gate, so a pending-role user, whose role table denies read, reads a public directory
  of somebody else.
\<close>

theorem pending_reads_public:
  "u_role (mk_user ''carol'' PENDING) \<noteq> SUPER_ADMIN
   \<and> \<not> is_owner ex_dirs ''pub'' (u_id (mk_user ''carol'' PENDING))
   \<and> \<not> has_permission (u_role (mk_user ''carol'' PENDING)) (ptype_value READ)
   \<and> PermissionChecker READ ex_dirs ex_perms ''pub'' (mk_user ''carol'' PENDING) = Some (Inr True)"
  by (simp add: PermissionChecker_def ex_defs)

text \<open>
  C3 (amended): for a non-owner, non-super-admin user whose role table denies the
  action, \<open>PermissionChecker\<close> raises the role gate's 403 on every directory, whatever
  the grants, unless the action is read or write and the directory is public.
\<close>

theorem role_ceiling:
  assumes "u_role current_user \<noteq> SUPER_ADMIN"
      and "\<not> is_owner dirs directory_id (u_id current_user)"
      and "\<not> has_permission (u_role current_user) (ptype_value action)"
      and "\<not> ((action = READ \<or> action = WRITE) \<and> is_public dirs directory_id)"
  shows "PermissionChecker action dirs perms directory_id current_user
           = Some (Inl (HTTPException 403
               (''Your role does not have '' @ ptype_value action @ '' permission'')))"
  using assms by (auto simp: PermissionChecker_def)

theorem role_ceiling_witness:
  "PermissionChecker DELETE ex_dirs
     [mk_perm ''g9'' ''bob'' ''docs'' [''delete'']] ''docs'' (mk_user ''bob'' USER)
   = Some (Inl (HTTPException 403 ''Your role does not have delete permission''))"
proof -
  have 1: "u_role (mk_user ''bob'' USER) \<noteq> SUPER_ADMIN" by (simp add: ex_defs)
  have 2: "\<not> is_owner ex_dirs ''docs'' (u_id (mk_user ''bob'' USER))" by (simp add: ex_defs)
  have 3: "\<not> has_permission (u_role (mk_user ''bob'' USER)) (ptype_value DELETE)"
    by (simp add: ex_defs)
  have 4: "\<not> ((DELETE = READ \<or> DELETE = WRITE) \<and> is_public ex_dirs ''docs'')" by simp
  show ?thesis
    using role_ceiling [OF 1 2 3 4, of "[mk_perm ''g9'' ''bob'' ''docs'' [''delete'']]"]
    by simp
qed

section \<open>Public directories\<close>

text \<open>
  C4, as stated, fails for a super-admin: the global override comes first, so a
  super-admin who is not the owner deletes in a public directory without grants.
\<close>

theorem super_admin_deletes_public:
  "find_one (\<lambda>d. d_id d = ''pub'') ex_dirs = Some (mk_dir ''pub'' ''alice'' None True)
   \<and> d_is_public (mk_dir ''pub'' ''alice'' None True)
   \<and> d_owner_id (mk_dir ''pub'' ''alice'' None True) \<noteq> u_id (mk_user ''zed'' SUPER_ADMIN)
   \<and> PermissionChecker DELETE ex_dirs [] ''pub'' (mk_user ''zed'' SUPER_ADMIN) = Some (Inr True)"
  by (simp add: PermissionChecker_def ex_defs)

text \<open>
  C4 (amended): on a public directory \<open>PermissionChecker\<close> allows read and write to
  every user; it raises a 403 for delete when the user is neither super-admin nor the
  owner, the walk from the directory has returned, and no grant for the user exists on
  the directory or on any identifier of its ancestor path. The walk returns on every
  store without cycles.
\<close>

theorem public_read_write_not_delete:
  assumes "find_one (\<lambda>d. d_id d = directory_id) dirs = Some D"
      and "d_is_public D"
  shows "PermissionChecker READ dirs perms directory_id current_user = Some (Inr True)
       \<and> PermissionChecker WRITE dirs perms directory_id current_user = Some (Inr True)
       \<and> (u_role current_user \<noteq> SUPER_ADMIN
            \<and> \<not> is_owner dirs directory_id (u_id current_user)
            \<and> (\<exists>path_ids. build_path dirs D [directory_id] = Some path_ids
                 \<and> (\<forall>x \<in> set path_ids.
                       find_one (\<lambda>p. p_user_id p = u_id current_user \<and> p_directory_id p = x)
                         perms = None))
          \<longrightarrow> (\<exists>detail. PermissionChecker DELETE dirs perms directory_id current_user
                  = Some (Inl (HTTPException 403 detail))))
       \<and> (acyclic (child_rel dirs) \<longrightarrow>
            (\<exists>path_ids. build_path dirs D [directory_id] = Some path_ids))"
proof -
  have stored: "D \<in> set dirs" using find_one_SomeD [OF assms(1)] by simp
  have returns: "acyclic (child_rel dirs) \<longrightarrow>
            (\<exists>path_ids. build_path dirs D [directory_id] = Some path_ids)"
    using build_path_returns [OF _ stored] by blast
  have pub: "is_public dirs directory_id" using assms by (simp add: is_public_def)
  have r: "PermissionChecker READ dirs perms directory_id current_user = Some (Inr True)"
    using pub by (simp add: PermissionChecker_def)
  have w: "PermissionChecker WRITE dirs perms directory_id current_user = Some (Inr True)"
    using pub by (simp add: PermissionChecker_def)
  have d: "\<exists>detail. PermissionChecker DELETE dirs perms directory_id current_user
                  = Some (Inl (HTTPException 403 detail))"
    if nsa: "u_role current_user \<noteq> SUPER_ADMIN"
      and nown: "\<not> is_owner dirs directory_id (u_id current_user)"
      and bp: "build_path dirs D [directory_id] = Some path_ids"
      and ng: "\<forall>x \<in> set path_ids.
                 find_one (\<lambda>p. p_user_id p = u_id current_user \<and> p_directory_id p = x)
                   perms = None"
    for path_ids
  proof -
    have "d_owner_id D \<noteq> u_id current_user"
      using nown assms(1) by (rule not_owner_find_one)
    then have "check_permission dirs perms (u_id current_user) directory_id DELETE = Some False"
      using assms(1) bp scan_path_none [OF ng] by (simp add: check_permission_def)
    then show ?thesis using nsa nown by (simp add: PermissionChecker_def)
  qed
  from r w d returns show ?thesis by blast
qed

theorem public_read_write_not_delete_witness:
  "PermissionChecker READ ex_dirs [] ''pub'' (mk_user ''dave'' ADMIN) = Some (Inr True)
   \<and> PermissionChecker WRITE ex_dirs [] ''pub'' (mk_user ''dave'' ADMIN) = Some (Inr True)
   \<and> PermissionChecker DELETE ex_dirs [] ''pub'' (mk_user ''dave'' ADMIN)
       = Some (Inl (HTTPException 403 ''Missing delete permission for this directory''))"
proof -
  have f: "find_one (\<lambda>d. d_id d = ''pub'') ex_dirs = Some (mk_dir ''pub'' ''alice'' None True)"
    by (simp add: ex_defs)
  have p: "d_is_public (mk_dir ''pub'' ''alice'' None True)" by (simp add: ex_defs)
  have bp: "build_path ex_dirs (mk_dir ''pub'' ''alice'' None True) [''pub''] = Some [''pub'']"
    by (simp add: build_path.simps ex_defs)
  have h: "u_role (mk_user ''dave'' ADMIN) \<noteq> SUPER_ADMIN
            \<and> \<not> is_owner ex_dirs ''pub'' (u_id (mk_user ''dave'' ADMIN))
            \<and> (\<exists>path_ids. build_path ex_dirs (mk_dir ''pub'' ''alice'' None True) [''pub'']
                   = Some path_ids
                 \<and> (\<forall>x \<in> set path_ids.
                       find_one (\<lambda>p. p_user_id p = u_id (mk_user ''dave'' ADMIN)
                                      \<and> p_directory_id p = x) [] = None))"
    using bp by (simp add: ex_defs)
  from public_read_write_not_delete [OF f p, of "[]" "mk_user ''dave'' ADMIN"] h
  have "\<exists>detail. PermissionChecker DELETE ex_dirs [] ''pub'' (mk_user ''dave'' ADMIN)
                  = Some (Inl (HTTPException 403 detail))" by blast
  moreover have "PermissionChecker DELETE ex_dirs [] ''pub'' (mk_user ''dave'' ADMIN)
       = Some (Inl (HTTPException 403 ''Missing delete permission for this directory''))"
    using bp by (simp add: PermissionChecker_def check_permission_def ex_defs)
  ultimately show ?thesis
    using public_read_write_not_delete [OF f p, of "[]" "mk_user ''dave'' ADMIN"] by blast
qed

section \<open>Cascade plan\<close>

lemma children_ids_rel: "k \<in> set (children_ids dirs p) \<longleftrightarrow> (k, p) \<in> child_rel dirs"
  by (auto simp: children_ids_def find_many_def child_rel_def)

lemma cycle_moves_down:
  assumes "on_cycle_below dirs p"
  shows "\<exists>k \<in> set (children_ids dirs p). on_cycle_below dirs k"
proof -
  from assms obtain c where c: "(c, p) \<in> (child_rel dirs)\<^sup>*" "(c, c) \<in> (child_rel dirs)\<^sup>+"
    by (auto simp: on_cycle_below_def)
  then have "(c, p) \<in> (child_rel dirs)\<^sup>+"
    by (metis rtranclD)
  then obtain k where k: "(c, k) \<in> (child_rel dirs)\<^sup>*" "(k, p) \<in> child_rel dirs"
    by (auto dest: tranclD2)
  from k(1) c(2) have "on_cycle_below dirs k" by (auto simp: on_cycle_below_def)
  with k(2) show ?thesis by (auto simp: children_ids_rel)
qed

lemma descendants_loop_diverges:
  assumes "\<exists>x \<in> set queue. on_cycle_below dirs x"
  shows "descendants_loop dirs queue result = None"
proof (rule ccontr)
  assume "descendants_loop dirs queue result \<noteq> None"
  then obtain out where out: "descendants_loop dirs queue result = Some out" by auto
  have "\<not> (\<exists>x \<in> set queue. on_cycle_below dirs x)"
  proof (rule descendants_loop.raw_induct
           [where P = "\<lambda>dirs queue result out. \<not> (\<exists>x \<in> set queue. on_cycle_below dirs x)",
            OF _ out], goal_cases)
    case (1 self dirs queue result out)
    show ?case
    proof (cases queue)
      case Nil
      then show ?thesis by simp
    next
      case (Cons p rest)
      with 1(2) have "self dirs (rest @ children_ids dirs p) (result @ children_ids dirs p)
                        = Some out"
        by (simp add: foldl_children children_ids_def)
      from 1(1) [OF this]
      have no: "\<not> (\<exists>x \<in> set (rest @ children_ids dirs p). on_cycle_below dirs x)" .
      show ?thesis
      proof
        assume "\<exists>x \<in> set queue. on_cycle_below dirs x"
        then obtain x where x: "x \<in> set queue" "on_cycle_below dirs x" by blast
        show False
        proof (cases "x = p")
          case True
          with x(2) cycle_moves_down [of dirs p] no show False by auto
        next
          case False
          with x Cons no show False by auto
        qed
      qed
    qed
  qed
  with assms show False by blast
qed

text \<open>
  C5, as stated, fails: the loop keeps no record of the identifiers it has collected,
  and on a directory that is its own parent it never returns.
\<close>

theorem self_parent_never_returns:
  "get_descendant_ids [mk_dir ''a'' ''alice'' (Some ''a'') False] ''a'' = None"
proof -
  have "(''a'', ''a'') \<in> child_rel [mk_dir ''a'' ''alice'' (Some ''a'') False]"
    by (simp add: child_rel_def mk_dir_def)
  then have "on_cycle_below [mk_dir ''a'' ''alice'' (Some ''a'') False] ''a''"
    unfolding on_cycle_below_def by blast
  then show ?thesis
    unfolding get_descendant_ids_def by (intro descendants_loop_diverges) simp
qed

lemma descendants_of_unfold:
  "descendants_of dirs p
     = set (children_ids dirs p) \<union> (\<Union>k \<in> set (children_ids dirs p). descendants_of dirs k)"
proof
  show "descendants_of dirs p
          \<subseteq> set (children_ids dirs p) \<union> (\<Union>k \<in> set (children_ids dirs p). descendants_of dirs k)"
  proof
    fix c assume "c \<in> descendants_of dirs p"
    then have "(c, p) \<in> (child_rel dirs)\<^sup>+" by (simp add: descendants_of_def)
    then show "c \<in> set (children_ids dirs p)
                    \<union> (\<Union>k \<in> set (children_ids dirs p). descendants_of dirs k)"
      by (cases rule: tranclE) (auto simp: children_ids_rel descendants_of_def)
  qed
next
  show "set (children_ids dirs p) \<union> (\<Union>k \<in> set (children_ids dirs p). descendants_of dirs k)
          \<subseteq> descendants_of dirs p"
    by (auto simp: children_ids_rel descendants_of_def intro: trancl_into_trancl)
qed

lemma descendants_loop_returns:
  assumes "wf (child_rel dirs)"
  shows "\<exists>out. descendants_loop dirs queue result = Some out"
proof -
  have wfm: "wf (inv_image (mult (child_rel dirs)) mset)"
    using assms by (intro wf_inv_image wf_mult)
  show ?thesis
  proof (induction queue arbitrary: result rule: wf_induct_rule [OF wfm])
    case (1 queue)
    show ?case
    proof (cases queue)
      case Nil
      then show ?thesis by (subst descendants_loop_unfold) simp
    next
      case (Cons p rest)
      have "(mset rest + mset (children_ids dirs p), mset rest + {#p#})
              \<in> mult (child_rel dirs)"
        by (rule one_step_implies_mult) (auto simp: children_ids_rel)
      then have "(rest @ children_ids dirs p, queue) \<in> inv_image (mult (child_rel dirs)) mset"
        using Cons by (simp add: inv_image_def)
      from 1 [OF this, of "result @ children_ids dirs p"]
      show ?thesis using Cons by (subst descendants_loop_unfold) simp
    qed
  qed
qed

lemma descendants_loop_set:
  assumes "descendants_loop dirs queue result = Some out"
  shows "set out = set result \<union> (\<Union>x \<in> set queue. descendants_of dirs x)"
proof (rule descendants_loop.raw_induct
         [where P = "\<lambda>dirs queue result out.
                       set out = set result \<union> (\<Union>x \<in> set queue. descendants_of dirs x)",
          OF _ assms], goal_cases)
  case (1 self dirs queue result out)
  show ?case
  proof (cases queue)
    case Nil
    with 1(2) show ?thesis by simp
  next
    case (Cons p rest)
    with 1(2) have "self dirs (rest @ children_ids dirs p) (result @ children_ids dirs p)
                      = Some out"
      by (simp add: foldl_children children_ids_def)
    from 1(1) [OF this] Cons show ?thesis
      by (simp add: descendants_of_unfold [of dirs p] Un_ac)
  qed
qed

lemma single_valued_child_rel:
  assumes "distinct (map d_id dirs)"
  shows "single_valued (child_rel dirs)"
proof (rule single_valuedI)
  fix c p1 p2
  assume "(c, p1) \<in> child_rel dirs" "(c, p2) \<in> child_rel dirs"
  then obtain d1 d2 where
    d: "d1 \<in> set dirs" "d_id d1 = c" "d_parent_id d1 = Some p1"
       "d2 \<in> set dirs" "d_id d2 = c" "d_parent_id d2 = Some p2"
    by (auto simp: child_rel_def)
  from assms have "inj_on d_id (set dirs)" by (simp add: distinct_map)
  with d(1,2,4,5) have "d1 = d2" by (auto dest: inj_onD)
  with d(3,6) show "p1 = p2" by simp
qed

lemma distinct_children_ids:
  "distinct (map d_id dirs) \<Longrightarrow> distinct (children_ids dirs p)"
  unfolding children_ids_def find_many_def by (rule distinct_map_filter)

lemma above_child:
  assumes sv: "single_valued (child_rel dirs)"
      and k: "(k, p) \<in> child_rel dirs" and ky: "(k, y) \<in> (child_rel dirs)\<^sup>+"
  shows "(p, y) \<in> (child_rel dirs)\<^sup>*"
proof -
  from ky obtain z where z: "(k, z) \<in> child_rel dirs" "(z, y) \<in> (child_rel dirs)\<^sup>*"
    by (auto dest: tranclD)
  from sv k z(1) have "z = p" by (auto dest: single_valuedD)
  with z(2) show ?thesis by simp
qed

lemma step_keeps_independent:
  assumes tl: "tree_like dirs" and ind: "independent dirs (p # rest)"
  shows "independent dirs (rest @ children_ids dirs p)"
proof -
  let ?r = "child_rel dirs" and ?kids = "children_ids dirs p"
  from tl have ac: "acyclic ?r" and di: "distinct (map d_id dirs)"
    by (simp_all add: tree_like_def)
  note sv = single_valued_child_rel [OF di]
  from ind have dq: "distinct (p # rest)"
    and far: "\<And>x y. x \<in> set (p # rest) \<Longrightarrow> y \<in> set (p # rest) \<Longrightarrow> x \<noteq> y
                 \<Longrightarrow> (x, y) \<notin> ?r\<^sup>*"
    by (auto simp: independent_def)
  have loop: "(p, p) \<notin> ?r\<^sup>+" using ac by (simp add: acyclic_def)
  have kid: "(k, p) \<in> ?r" if "k \<in> set ?kids" for k using that by (simp add: children_ids_rel)
  have kp: "k \<noteq> p" if "k \<in> set ?kids" for k using kid [OF that] loop by auto
  have disj: "set rest \<inter> set ?kids = {}"
  proof (rule ccontr)
    assume "set rest \<inter> set ?kids \<noteq> {}"
    then obtain k where k: "k \<in> set rest" "k \<in> set ?kids" by auto
    from kid [OF k(2)] have "(k, p) \<in> ?r\<^sup>*" by auto
    with far [of k p] k(1) kp [OF k(2)] show False by auto
  qed
  have d: "distinct (rest @ ?kids)"
    using dq distinct_children_ids [OF di, of p] disj by simp
  have pair: "(x, y) \<notin> ?r\<^sup>*"
    if x: "x \<in> set (rest @ ?kids)" and y: "y \<in> set (rest @ ?kids)" and ne: "x \<noteq> y" for x y
  proof
    assume xy: "(x, y) \<in> ?r\<^sup>*"
    with ne have xyp: "(x, y) \<in> ?r\<^sup>+" by (auto dest: rtranclD)
    show False
    proof (cases "x \<in> set ?kids")
      case True
      from above_child [OF sv kid [OF True] xyp] have py: "(p, y) \<in> ?r\<^sup>*" .
      show False
      proof (cases "y \<in> set ?kids")
        case True
        from py kid [OF True] have "(p, p) \<in> ?r\<^sup>+" by (rule rtrancl_into_trancl1)
        with loop show False ..
      next
        case False
        with y have yr: "y \<in> set rest" by simp
        with dq have "p \<noteq> y" by auto
        with far [of p y] yr py show False by simp
      qed
    next
      case False
      with x have xr: "x \<in> set rest" by simp
      show False
      proof (cases "y \<in> set ?kids")
        case True
        from xy kid [OF True] have "(x, p) \<in> ?r\<^sup>*" by (rule rtrancl_into_rtrancl)
        moreover from xr dq have "x \<noteq> p" by auto
        ultimately show False using far [of x p] xr by simp
      next
        case False
        with y have "y \<in> set rest" by simp
        with far [of x y] xr ne xy show False by simp
      qed
    qed
  qed
  from d pair show ?thesis unfolding independent_def by blast
qed

lemma kids_not_below_next:
  assumes tl: "tree_like dirs" and ind: "independent dirs (p # rest)"
      and k: "k \<in> set (children_ids dirs p)" and y: "y \<in> set (rest @ children_ids dirs p)"
  shows "k \<notin> descendants_of dirs y"
proof
  let ?r = "child_rel dirs"
  assume "k \<in> descendants_of dirs y"
  then have ky: "(k, y) \<in> ?r\<^sup>+" by (simp add: descendants_of_def)
  from tl have ac: "acyclic ?r" and di: "distinct (map d_id dirs)"
    by (simp_all add: tree_like_def)
  have kid: "(k, p) \<in> ?r" using k by (simp add: children_ids_rel)
  from above_child [OF single_valued_child_rel [OF di] kid ky] have py: "(p, y) \<in> ?r\<^sup>*" .
  show False
  proof (cases "y \<in> set (children_ids dirs p)")
    case True
    then have "(y, p) \<in> ?r" by (simp add: children_ids_rel)
    with py have "(p, p) \<in> ?r\<^sup>+" by (rule rtrancl_into_trancl1)
    with ac show False by (simp add: acyclic_def)
  next
    case False
    with y have yr: "y \<in> set rest" by simp
    with ind have "p \<noteq> y" "(p, y) \<notin> ?r\<^sup>*" by (auto simp: independent_def)
    with py show False by simp
  qed
qed

lemma descendants_loop_distinct:
  assumes run: "descendants_loop dirs queue result = Some out"
      and pre: "tree_like dirs" "independent dirs queue" "distinct result"
               "set result \<inter> (\<Union>x \<in> set queue. descendants_of dirs x) = {}"
  shows "distinct out"
proof -
  have "tree_like dirs \<and> independent dirs queue \<and> distinct result
          \<and> set result \<inter> (\<Union>x \<in> set queue. descendants_of dirs x) = {}
        \<longrightarrow> distinct out"
  proof (rule descendants_loop.raw_induct
           [where P = "\<lambda>dirs queue result out.
              tree_like dirs \<and> independent dirs queue \<and> distinct result
                \<and> set result \<inter> (\<Union>x \<in> set queue. descendants_of dirs x) = {}
              \<longrightarrow> distinct out",
            OF _ run], goal_cases)
    case (1 self dirs queue result out)
    show ?case
    proof (cases queue)
      case Nil
      with 1(2) show ?thesis by auto
    next
      case (Cons p rest)
      let ?kids = "children_ids dirs p"
      from Cons 1(2) have call: "self dirs (rest @ ?kids) (result @ ?kids) = Some out"
        by (simp add: foldl_children children_ids_def)
      show ?thesis
      proof (intro impI, elim conjE)
        assume tl: "tree_like dirs" and ind: "independent dirs queue"
          and dr: "distinct result"
          and dj: "set result \<inter> (\<Union>x \<in> set queue. descendants_of dirs x) = {}"
        from ind Cons have ind': "independent dirs (p # rest)" by simp
        have below: "descendants_of dirs p
            = set ?kids \<union> (\<Union>k \<in> set ?kids. descendants_of dirs k)"
          by (rule descendants_of_unfold)
        have i1: "independent dirs (rest @ ?kids)"
          using tl ind' by (rule step_keeps_independent)
        have rk: "set result \<inter> set ?kids = {}"
          using dj Cons below by auto
        have dk: "distinct ?kids"
          using tl by (simp add: tree_like_def distinct_children_ids)
        have d1: "distinct (result @ ?kids)" using dr dk rk by simp
        have r1: "set result \<inter> (\<Union>x \<in> set (rest @ ?kids). descendants_of dirs x) = {}"
          using dj Cons below by auto
        have k1: "set ?kids \<inter> (\<Union>x \<in> set (rest @ ?kids). descendants_of dirs x) = {}"
          using kids_not_below_next [OF tl ind'] by blast
        have j1: "set (result @ ?kids)
                    \<inter> (\<Union>x \<in> set (rest @ ?kids). descendants_of dirs x) = {}"
          using r1 k1 by (simp add: Int_Un_distrib2)
        from 1(1) [OF call] tl i1 d1 j1 show "distinct out" by blast
      qed
    qed
  qed
  with pre show ?thesis by blast
qed

lemma cascade_plan_acyclic:
  assumes "acyclic (child_rel dirs)" and "distinct (map d_id dirs)"
  shows "\<exists>descendant_ids.
           get_descendant_ids dirs directory_id = Some descendant_ids
         \<and> set descendant_ids = {c. (c, directory_id) \<in> (child_rel dirs)\<^sup>+}
         \<and> distinct descendant_ids
         \<and> directory_id \<notin> set descendant_ids
         \<and> set ([directory_id] @ descendant_ids)
             = {c. (c, directory_id) \<in> (child_rel dirs)\<^sup>*}"
proof -
  have wf: "wf (child_rel dirs)"
    using finite_child_rel assms(1) by (rule finite_acyclic_wf)
  from descendants_loop_returns [OF wf, of "[directory_id]" "[]"]
  obtain out where run: "descendants_loop dirs [directory_id] [] = Some out" by blast
  have s: "set out = {c. (c, directory_id) \<in> (child_rel dirs)\<^sup>+}"
    using descendants_loop_set [OF run] by (simp add: descendants_of_def)
  have tl: "tree_like dirs" using assms by (simp add: tree_like_def)
  have d: "distinct out"
    by (rule descendants_loop_distinct [OF run tl]) (simp_all add: independent_def)
  have n: "directory_id \<notin> set out"
    using s assms(1) by (auto simp: acyclic_def)
  have a: "set ([directory_id] @ out) = {c. (c, directory_id) \<in> (child_rel dirs)\<^sup>*}"
    using s by (auto simp: rtrancl_eq_or_trancl)
  from run s d n a show ?thesis unfolding get_descendant_ids_def by blast
qed

text \<open>
  C5 (amended): the enumeration is a breadth-first traversal through the
  \<open>parent_id\<close> links with no guard against revisits. On a store without cycles and
  with unique identifiers it returns, each descendant occurs exactly once in the
  result, and the plan is exactly the target and its direct and transitive descendants.
  When a cycle of parent links lies at or below the starting directory it does not
  return.
\<close>

theorem cascade_plan:
  "(acyclic (child_rel dirs) \<and> distinct (map d_id dirs) \<longrightarrow>
      (\<exists>descendant_ids.
           get_descendant_ids dirs directory_id = Some descendant_ids
         \<and> set descendant_ids = {c. (c, directory_id) \<in> (child_rel dirs)\<^sup>+}
         \<and> distinct descendant_ids
         \<and> directory_id \<notin> set descendant_ids
         \<and> set ([directory_id] @ descendant_ids)
             = {c. (c, directory_id) \<in> (child_rel dirs)\<^sup>*}))
   \<and> (on_cycle_below dirs directory_id \<longrightarrow> get_descendant_ids dirs directory_id = None)"
proof (intro conjI impI)
  assume "acyclic (child_rel dirs) \<and> distinct (map d_id dirs)"
  then show "\<exists>descendant_ids.
           get_descendant_ids dirs directory_id = Some descendant_ids
         \<and> set descendant_ids = {c. (c, directory_id) \<in> (child_rel dirs)\<^sup>+}
         \<and> distinct descendant_ids
         \<and> directory_id \<notin> set descendant_ids
         \<and> set ([directory_id] @ descendant_ids)
             = {c. (c, directory_id) \<in> (child_rel dirs)\<^sup>*}"
    using cascade_plan_acyclic by blast
next
  assume "on_cycle_below dirs directory_id"
  then show "get_descendant_ids dirs directory_id = None"
    unfolding get_descendant_ids_def by (intro descendants_loop_diverges) simp
qed

lemma ex_chain_acyclic: "acyclic (child_rel ex_chain)"
proof -
  let ?f = "\<lambda>x. if x = ''a'' then 2 else if x = ''b'' then 1 else (0::nat)"
  have "child_rel ex_chain \<subseteq> measure ?f"
    by (auto simp: child_rel_def ex_chain_def mk_dir_def)
  then have "wf (child_rel ex_chain)" by (rule wf_subset [OF wf_measure])
  then show ?thesis by (rule wf_acyclic)
qed

theorem cascade_plan_witness:
  "get_descendant_ids ex_chain ''a'' = Some [''b'', ''c'']
   \<and> {c. (c, ''a'') \<in> (child_rel ex_chain)\<^sup>+} = {''b'', ''c''}
   \<and> get_descendant_ids [mk_dir ''a'' ''alice'' (Some ''b'') False,
                          mk_dir ''b'' ''alice'' (Some ''a'') False] ''a'' = None"
proof -
  let ?loop = "[mk_dir ''a'' ''alice'' (Some ''b'') False,
                mk_dir ''b'' ''alice'' (Some ''a'') False]"
  have d: "distinct (map d_id ex_chain)" by (simp add: ex_chain_def mk_dir_def)
  have "(''a'', ''b'') \<in> child_rel ?loop" "(''b'', ''a'') \<in> child_rel ?loop"
    by (force simp: child_rel_def mk_dir_def)+
  then have "(''a'', ''a'') \<in> (child_rel ?loop)\<^sup>+" by (meson trancl.simps)
  then have c: "on_cycle_below ?loop ''a''" unfolding on_cycle_below_def by blast
  from cascade_plan [of ex_chain "''a''"] ex_chain_acyclic d ex_chain_descendants
       cascade_plan [of ?loop "''a''"] c
  show ?thesis by auto
qed

section \<open>Tree build\<close>

text \<open>
  C6: on a store with unique directory identifiers, the list the tree builder starts
  from holds, for a user who is not super-admin, exactly the directories the user owns,
  the public ones and the ones some grant for the user names, each once; for a
  super-admin it is the whole collection. The builder makes one node per listed
  directory and no other. The children of a node are exactly the listed directories
  whose \<open>parent_id\<close> is set and equal to the node's key, and the roots are exactly the
  listed directories whose \<open>parent_id\<close> is unset or names no listed directory, both in
  enumeration order.
\<close>

theorem tree_build:
  assumes dist: "distinct (map d_id dirs)"
      and tree: "get_directory_tree dirs perms user_id user_role = (dir_map, roots)"
  shows "(user_role \<noteq> SUPER_ADMIN \<longrightarrow>
            set (get_user_directories dirs perms user_id user_role)
              = {d \<in> set dirs. visible perms user_id d})
       \<and> (user_role = SUPER_ADMIN \<longrightarrow>
            get_user_directories dirs perms user_id user_role = dirs)
       \<and> distinct (map d_id (get_user_directories dirs perms user_id user_role))
       \<and> map fst dir_map = map d_id (get_user_directories dirs perms user_id user_role)
       \<and> (\<forall>n \<in> set (get_user_directories dirs perms user_id user_role).
             map_option directory.truncate (map_of dir_map (d_id n)) = Some n)
       \<and> (\<forall>p. children_of dir_map p
             = map d_id (filter (\<lambda>n. truthy (d_parent_id n) \<and> the (d_parent_id n) = p
                                      \<and> p \<in> d_id ` set (get_user_directories dirs perms
                                                           user_id user_role))
                          (get_user_directories dirs perms user_id user_role)))
       \<and> roots
             = map d_id (filter (\<lambda>n. \<not> (truthy (d_parent_id n)
                                      \<and> the (d_parent_id n)
                                          \<in> d_id ` set (get_user_directories dirs perms
                                                           user_id user_role)))
                          (get_user_directories dirs perms user_id user_role))"
proof -
  let ?vis = "get_user_directories dirs perms user_id user_role"
  let ?h = "map (\<lambda>d. (d_id d, new_node d)) ?vis"
  have sa: "user_role = SUPER_ADMIN \<longrightarrow> ?vis = dirs"
    by (simp add: super_admin_sees_all)
  have nsa: "user_role \<noteq> SUPER_ADMIN \<longrightarrow> set ?vis = {d \<in> set dirs. visible perms user_id d}"
    using visible_set [OF _ dist] by blast
  have dv: "distinct (map d_id ?vis)"
  proof (cases "user_role = SUPER_ADMIN")
    case True
    then show ?thesis using dist by (simp add: super_admin_sees_all)
  next
    case False
    then show ?thesis using visible_set [OF False dist] by blast
  qed
  have bm: "build_dir_map ?vis = ?h" using dv by (rule build_dir_map_distinct)
  have keys: "map fst ?h = map d_id ?vis" by (simp add: comp_def)
  have kset: "fst ` set ?h = d_id ` set ?vis" by (simp add: image_image)
  have run: "attach_loop (map d_id ?vis) (?h, []) = (dir_map, roots)"
    using tree unfolding get_directory_tree_def Let_def bm keys .
  note ch = attach_loop_char [OF run]
  have fm: "map fst dir_map = map d_id ?vis" using ch keys by simp
  have mo: "map_of dir_map q
          = map_option (\<lambda>n. n\<lparr>t_children := t_children n
                                 @ filter (\<lambda>k. attached ?h k q) (map d_id ?vis)\<rparr>)
              (map_of ?h q)" for q
    using ch by blast
  have rt: "roots = filter (is_root ?h) (map d_id ?vis)" using ch by simp
  have att: "attached ?h (d_id n) q
           \<longleftrightarrow> truthy (d_parent_id n) \<and> the (d_parent_id n) = q \<and> q \<in> d_id ` set ?vis"
    if "n \<in> set ?vis" for n q
    using map_of_nodes [OF dv that] kset
    by (auto simp: attached_def new_node_fields)
  have isr: "is_root ?h (d_id n)
           \<longleftrightarrow> \<not> (truthy (d_parent_id n) \<and> the (d_parent_id n) \<in> d_id ` set ?vis)"
    if "n \<in> set ?vis" for n
    using map_of_nodes [OF dv that] kset
    by (auto simp: is_root_def new_node_fields)
  have flt: "filter (\<lambda>k. attached ?h k q) (map d_id ?vis)
           = map d_id (filter (\<lambda>n. truthy (d_parent_id n) \<and> the (d_parent_id n) = q
                                    \<and> q \<in> d_id ` set ?vis) ?vis)" for q
  proof -
    have "filter (\<lambda>k. attached ?h k q) (map d_id ?vis)
        = map d_id (filter (\<lambda>n. attached ?h (d_id n) q) ?vis)"
      by (simp add: filter_map comp_def)
    also have "filter (\<lambda>n. attached ?h (d_id n) q) ?vis
        = filter (\<lambda>n. truthy (d_parent_id n) \<and> the (d_parent_id n) = q
                                    \<and> q \<in> d_id ` set ?vis) ?vis"
      by (rule filter_cong [OF refl]) (rule att)
    finally show ?thesis .
  qed
  have nodes: "\<forall>n \<in> set ?vis. map_option directory.truncate (map_of dir_map (d_id n)) = Some n"
  proof
    fix n assume "n \<in> set ?vis"
    from map_of_nodes [OF dv this] show
      "map_option directory.truncate (map_of dir_map (d_id n)) = Some n"
      by (simp add: mo truncate_children_update truncate_new_node)
  qed
  have kids: "children_of dir_map p
             = map d_id (filter (\<lambda>n. truthy (d_parent_id n) \<and> the (d_parent_id n) = p
                                      \<and> p \<in> d_id ` set ?vis) ?vis)" for p
  proof (cases "p \<in> d_id ` set ?vis")
    case True
    then obtain n where n: "n \<in> set ?vis" "p = d_id n" by auto
    from map_of_nodes [OF dv n(1)] n(2)
    have "children_of dir_map p = filter (\<lambda>k. attached ?h k p) (map d_id ?vis)"
      by (simp add: children_of_def mo new_node_fields)
    then show ?thesis by (simp only: flt)
  next
    case False
    from map_of_nodes_None [OF False]
    have "children_of dir_map p = []" by (simp add: children_of_def mo)
    with False show ?thesis by simp
  qed
  have roots: "roots = map d_id (filter (\<lambda>n. \<not> (truthy (d_parent_id n)
                          \<and> the (d_parent_id n) \<in> d_id ` set ?vis)) ?vis)"
  proof -
    have "filter (is_root ?h) (map d_id ?vis)
        = map d_id (filter (\<lambda>n. is_root ?h (d_id n)) ?vis)"
      by (simp add: filter_map comp_def)
    also have "filter (\<lambda>n. is_root ?h (d_id n)) ?vis
        = filter (\<lambda>n. \<not> (truthy (d_parent_id n)
                          \<and> the (d_parent_id n) \<in> d_id ` set ?vis)) ?vis"
      by (rule filter_cong [OF refl]) (rule isr)
    finally show ?thesis using rt by simp
  qed
  from nsa sa dv fm nodes kids roots show ?thesis by blast
qed

theorem tree_build_witness:
  "snd (get_directory_tree ex_dirs ex_perms ''bob'' USER) = [''pub'', ''top'']
   \<and> children_of (fst (get_directory_tree ex_dirs ex_perms ''bob'' USER)) ''top'' = [''docs'']
   \<and> children_of (fst (get_directory_tree ex_dirs ex_perms ''bob'' USER)) ''docs'' = []
   \<and> map fst (fst (get_directory_tree ex_dirs ex_perms ''bob'' USER))
        = [''pub'', ''top'', ''docs'']"
proof -
  have d: "distinct (map d_id ex_dirs)" by (simp add: ex_dirs_def mk_dir_def)
  have t: "get_directory_tree ex_dirs ex_perms ''bob'' USER
         = (fst (get_directory_tree ex_dirs ex_perms ''bob'' USER),
            snd (get_directory_tree ex_dirs ex_perms ''bob'' USER))" by simp
  show ?thesis
    using tree_build [OF d t] unfolding visible_to_bob
    by (simp add: mk_dir_def)
qed

section \<open>Grant upsert\<close>

lemma find_one_None_iff: "find_one q xs = None \<longleftrightarrow> (\<forall>x \<in> set xs. \<not> q x)"
  unfolding find_one_def by (induction xs) auto

lemma update_one_distinct:
  "distinct (map p_id perms) \<Longrightarrow>
   update_one (\<lambda>p. p_id p = i) upd perms = map (\<lambda>p. if p_id p = i then upd p else p) perms"
proof (induction perms)
  case Nil
  then show ?case by simp
next
  case (Cons x xs)
  show ?case
  proof (cases "p_id x = i")
    case True
    with Cons.prems have "\<forall>y \<in> set xs. p_id y \<noteq> i" by (auto simp: image_iff)
    then have "map (\<lambda>p. if p_id p = i then upd p else p) xs = xs"
      by (induction xs) auto
    with True show ?thesis by simp
  next
    case False
    with Cons show ?thesis by simp
  qed
qed

lemma filter_unique:
  "distinct (map f xs) \<Longrightarrow> x \<in> set xs \<Longrightarrow> filter (\<lambda>y. f y = f x) xs = [x]"
proof (induction xs)
  case Nil
  then show ?case by simp
next
  case (Cons a xs)
  show ?case
  proof (cases "a = x")
    case True
    with Cons.prems have "\<forall>y \<in> set xs. f y \<noteq> f x" by (auto simp: image_iff)
    then have "filter (\<lambda>y. f y = f x) xs = []" by (induction xs) auto
    with True show ?thesis by simp
  next
    case False
    with Cons.prems have "x \<in> set xs" "f a \<noteq> f x" by auto
    with Cons show ?thesis by simp
  qed
qed

lemma grant_permission_success:
  assumes "grant_permission dirs users perms data directory_id granted_by new_oid now
             = Inr (resp, perms')"
  shows "\<exists>grantee. find_one (\<lambda>u. u_email u = pg_user_email data) users = Some grantee
           \<and> (case find_one (\<lambda>p. p_user_id p = u_id grantee \<and> p_directory_id p = directory_id)
                      perms of
                 Some existing \<Rightarrow>
                   perms' = update_one (\<lambda>p. p_id p = p_id existing)
                              (\<lambda>p. p\<lparr>p_permissions := map ptype_value (pg_permissions data)\<rparr>)
                              perms
               | None \<Rightarrow>
                   new_oid \<notin> p_id ` set perms
                   \<and> perms' = perms @
                       [\<lparr>p_id = new_oid, p_user_id = u_id grantee,
                         p_directory_id = directory_id,
                         p_permissions = map ptype_value (pg_permissions data),
                         p_granted_by = granted_by, p_created_at = now\<rparr>])"
proof -
  from assms obtain directory where
    d: "find_one (\<lambda>d. d_id d = directory_id) dirs = Some directory"
    by (cases "find_one (\<lambda>d. d_id d = directory_id) dirs") (simp_all add: grant_permission_def)
  from assms d have own: "d_owner_id directory = granted_by"
    by (cases "d_owner_id directory = granted_by") (simp_all add: grant_permission_def)
  from assms d own obtain grantee where
    u: "find_one (\<lambda>u. u_email u = pg_user_email data) users = Some grantee"
    by (cases "find_one (\<lambda>u. u_email u = pg_user_email data) users")
       (simp_all add: grant_permission_def)
  from assms d own u have ns: "u_id grantee \<noteq> granted_by"
    by (cases "u_id grantee = granted_by") (simp_all add: grant_permission_def)
  show ?thesis
  proof (cases "find_one (\<lambda>p. p_user_id p = u_id grantee \<and> p_directory_id p = directory_id)
                  perms")
    case None
    with assms d own u ns show ?thesis
      by (auto simp: grant_permission_def insert_one_def
               split: if_splits option.splits)
  next
    case (Some existing)
    with assms d own u ns show ?thesis
      by (auto simp: grant_permission_def split: option.splits)
  qed
qed

lemma grants_for_key:
  "grants_for perms usr dir = filter (\<lambda>p. grant_key p = (usr, dir)) perms"
  by (simp add: grants_for_def grant_key_def)

lemma grant_step:
  assumes ok: "store_ok perms"
      and run: "grant_permission dirs users perms data directory_id granted_by new_oid now
                  = Inr (resp, perms')"
      and who: "find_one (\<lambda>u. u_email u = pg_user_email data) users = Some grantee"
  shows "store_ok perms'
       \<and> (\<forall>usr dir. map p_permissions (grants_for perms' usr dir)
             = (if usr = u_id grantee \<and> dir = directory_id
                then [map ptype_value (pg_permissions data)]
                else map p_permissions (grants_for perms usr dir)))"
proof -
  let ?new = "map ptype_value (pg_permissions data)"
  let ?q = "\<lambda>p. p_user_id p = u_id grantee \<and> p_directory_id p = directory_id"
  from ok have di: "distinct (map p_id perms)" and dk: "distinct (map grant_key perms)"
    by (simp_all add: store_ok_def)
  from grant_permission_success [OF run] who
  have shape: "case find_one ?q perms of
                 Some existing \<Rightarrow>
                   perms' = update_one (\<lambda>p. p_id p = p_id existing)
                              (\<lambda>p. p\<lparr>p_permissions := ?new\<rparr>) perms
               | None \<Rightarrow>
                   new_oid \<notin> p_id ` set perms
                   \<and> perms' = perms @
                       [\<lparr>p_id = new_oid, p_user_id = u_id grantee,
                         p_directory_id = directory_id, p_permissions = ?new,
                         p_granted_by = granted_by, p_created_at = now\<rparr>]"
    by auto
  show ?thesis
  proof (cases "find_one ?q perms")
    case None
    let ?doc = "\<lparr>p_id = new_oid, p_user_id = u_id grantee,
                  p_directory_id = directory_id, p_permissions = ?new,
                  p_granted_by = granted_by, p_created_at = now\<rparr>"
    from shape None have fresh: "new_oid \<notin> p_id ` set perms" and p': "perms' = perms @ [?doc]"
      by simp_all
    from None have nokey: "(u_id grantee, directory_id) \<notin> grant_key ` set perms"
      by (auto simp: find_one_None_iff grant_key_def)
    have none: "grants_for perms (u_id grantee) directory_id = []"
      using None by (auto simp: find_one_None_iff grants_for_def filter_empty_conv)
    have 1: "store_ok perms'"
      using di dk fresh nokey by (simp add: store_ok_def p' grant_key_def)
    have 2: "map p_permissions (grants_for perms' usr dir)
             = (if usr = u_id grantee \<and> dir = directory_id then [?new]
                else map p_permissions (grants_for perms usr dir))" for usr dir
      using none by (auto simp: p' grants_for_def)
    from 1 2 show ?thesis by blast
  next
    case (Some e)
    let ?F = "\<lambda>p. if p_id p = p_id e then p\<lparr>p_permissions := ?new\<rparr> else p"
    from find_one_SomeD [OF Some]
    have e: "e \<in> set perms" "grant_key e = (u_id grantee, directory_id)"
      by (simp_all add: grant_key_def)
    from shape Some have "perms' = update_one (\<lambda>p. p_id p = p_id e)
                              (\<lambda>p. p\<lparr>p_permissions := ?new\<rparr>) perms" by simp
    then have p': "perms' = map ?F perms" by (simp add: update_one_distinct [OF di])
    have idF: "p_id (?F p) = p_id p" and keyF: "grant_key (?F p) = grant_key p" for p
      by (simp_all add: grant_key_def)
    have 1: "store_ok perms'"
      using di dk by (simp add: store_ok_def p' comp_def idF keyF del: if_split cong: if_cong)
    have gf: "grants_for perms' usr dir = map ?F (grants_for perms usr dir)" for usr dir
      unfolding grants_for_key p' filter_map comp_def keyF ..
    have only: "grants_for perms (u_id grantee) directory_id = [e]"
      using filter_unique [OF dk e(1)] e(2) by (simp add: grants_for_key)
    have same: "map ?F (grants_for perms usr dir) = grants_for perms usr dir"
      if "(usr, dir) \<noteq> (u_id grantee, directory_id)" for usr dir
    proof -
      have "?F p = p" if p: "p \<in> set (grants_for perms usr dir)" for p
      proof -
        from p have pin: "p \<in> set perms" and pk: "grant_key p = (usr, dir)"
          by (simp_all add: grants_for_key)
        have "p_id p \<noteq> p_id e"
        proof
          assume "p_id p = p_id e"
          with di pin e(1) have "p = e" by (auto simp: distinct_map dest: inj_onD)
          with pk e(2) \<open>(usr, dir) \<noteq> (u_id grantee, directory_id)\<close> show False by simp
        qed
        then show ?thesis by simp
      qed
      then show ?thesis by (simp add: map_idI)
    qed
    have 2: "map p_permissions (grants_for perms' usr dir)
             = (if usr = u_id grantee \<and> dir = directory_id then [?new]
                else map p_permissions (grants_for perms usr dir))" for usr dir
    proof (cases "(usr, dir) = (u_id grantee, directory_id)")
      case True
      then show ?thesis using only by (simp add: gf)
    next
      case False
      from same [OF False] False show ?thesis by (auto simp: gf)
    qed
    from 1 2 show ?thesis by blast
  qed
qed

lemma last_granted_snoc:
  "last_granted (log @ [(u, d, ps)]) usr dir
     = (if usr = u \<and> dir = d then Some ps else last_granted log usr dir)"
  by (auto simp: last_granted_def find_one_def)

lemma grant_all_inv:
  "store_ok perms \<Longrightarrow> log_agrees perms log \<Longrightarrow>
   grant_all dirs users reqs (perms, log) = (perms', log') \<Longrightarrow>
   store_ok perms' \<and> log_agrees perms' log'"
proof (induction reqs arbitrary: perms log)
  case Nil
  then show ?case by simp
next
  case (Cons r reqs)
  obtain data directory_id granted_by new_oid now
    where r: "r = (data, directory_id, granted_by, new_oid, now)"
    by (cases r) auto
  show ?case
  proof (cases "grant_permission dirs users perms data directory_id granted_by new_oid now")
    case (Inl e)
    with Cons.prems(3) r have "grant_all dirs users reqs (perms, log) = (perms', log')"
      by simp
    from Cons.IH [OF Cons.prems(1,2) this] show ?thesis .
  next
    case (Inr res)
    obtain resp perms1 where res: "res = (resp, perms1)" by (cases res) auto
    from grant_permission_success [OF Inr [unfolded res]]
    obtain grantee where
      who: "find_one (\<lambda>u. u_email u = pg_user_email data) users = Some grantee"
      by blast
    let ?log1 = "log @ [(u_id grantee, directory_id, map ptype_value (pg_permissions data))]"
    from Cons.prems(3) r Inr res who
    have run: "grant_all dirs users reqs (perms1, ?log1) = (perms', log')" by simp
    from grant_step [OF Cons.prems(1) Inr [unfolded res] who]
    have ok1: "store_ok perms1"
      and upd: "\<And>usr dir. map p_permissions (grants_for perms1 usr dir)
             = (if usr = u_id grantee \<and> dir = directory_id
                then [map ptype_value (pg_permissions data)]
                else map p_permissions (grants_for perms usr dir))"
      by blast+
    have ag1: "log_agrees perms1 ?log1"
      unfolding log_agrees_def
    proof (intro allI)
      fix usr dir
      show "map p_permissions (grants_for perms1 usr dir)
          = (case last_granted ?log1 usr dir of None \<Rightarrow> [] | Some ps \<Rightarrow> [ps])"
        using Cons.prems(2) by (simp add: upd last_granted_snoc log_agrees_def)
    qed
    from Cons.IH [OF ok1 ag1 run] show ?thesis .
  qed
qed

text \<open>
  C7: after any sequence of grant requests on an empty permissions collection, every
  (grantee, directory) pair has at most one grant record, and its capability list is the
  one of the most recent successful grant for the pair (none if there was none): a
  grant for a pair that has a record replaces the record's capabilities.
\<close>

theorem grant_upsert:
  assumes "grant_all dirs users reqs ([], []) = (perms, log)"
  shows "(\<forall>usr dir. length (grants_for perms usr dir) \<le> 1)
       \<and> (\<forall>usr dir. map p_permissions (grants_for perms usr dir)
             = (case last_granted log usr dir of None \<Rightarrow> [] | Some ps \<Rightarrow> [ps]))"
proof -
  have "store_ok []" "log_agrees [] []"
    by (simp_all add: store_ok_def log_agrees_def grants_for_def last_granted_def find_one_def)
  from grant_all_inv [OF this assms]
  have ag: "log_agrees perms log" by blast
  then have eq: "map p_permissions (grants_for perms usr dir)
             = (case last_granted log usr dir of None \<Rightarrow> [] | Some ps \<Rightarrow> [ps])" for usr dir
    by (simp add: log_agrees_def)
  have "length (grants_for perms usr dir) \<le> 1" for usr dir
  proof -
    have "length (grants_for perms usr dir) = length (map p_permissions (grants_for perms usr dir))"
      by simp
    also have "\<dots> \<le> 1" unfolding eq by (simp split: option.splits)
    finally show ?thesis .
  qed
  with eq show ?thesis by blast
qed

lemma ex_requests_run:
  "grant_all ex_dirs ex_users ex_requests ([], [])
     = ([\<lparr>p_id = ''oid1'', p_user_id = ''bob'', p_directory_id = ''docs'',
           p_permissions = [''write''], p_granted_by = ''alice'', p_created_at = 1\<rparr>],
        [(''bob'', ''docs'', [''read'']), (''bob'', ''docs'', [''write''])])"
  by (simp add: ex_requests_def ex_users_def ex_dirs_def mk_dir_def mk_user_def
        grant_permission_def find_one_def insert_one_def)

theorem grant_upsert_witness:
  "grants_for (fst (grant_all ex_dirs ex_users ex_requests ([], []))) ''bob'' ''docs''
     = [\<lparr>p_id = ''oid1'', p_user_id = ''bob'', p_directory_id = ''docs'',
          p_permissions = [''write''], p_granted_by = ''alice'', p_created_at = 1\<rparr>]
   \<and> length (grants_for (fst (grant_all ex_dirs ex_users ex_requests ([], [])))
        ''bob'' ''docs'') \<le> 1
   \<and> map p_permissions (grants_for (fst (grant_all ex_dirs ex_users ex_requests ([], [])))
        ''bob'' ''docs'') = [[''write'']]"
proof -
  have lg: "last_granted [(''bob'', ''docs'', [''read'']), (''bob'', ''docs'', [''write''])]
              ''bob'' ''docs'' = Some [''write'']"
    by (simp add: last_granted_def find_one_def)
  from grant_upsert [OF ex_requests_run] lg
  show ?thesis by (simp add: ex_requests_run grants_for_def)
qed

section \<open>Broken parent links\<close>

text \<open>
  C8: for an existing target whose ancestor chain contains a dangling \<open>parent_id\<close>,
  \<open>check_permission\<close> returns a value for every user and action; the walk returns the
  path up to and including the dangling identifier and stops there; and for a non-owner
  with no grant on any identifier of that path the answer is deny.
\<close>

theorem dangling_walk_safe:
  assumes "find_one (\<lambda>d. d_id d = directory_id) dirs = Some D"
      and "dangling_chain dirs D"
  shows "(\<exists>b. check_permission dirs perms user_id directory_id action = Some b)
       \<and> (\<exists>above. build_path dirs D [directory_id] = Some (directory_id # above)
            \<and> above \<noteq> []
            \<and> find_one (\<lambda>d. d_id d = last above) dirs = None
            \<and> (d_owner_id D \<noteq> user_id
                 \<and> (\<forall>x \<in> set (directory_id # above).
                       find_one (\<lambda>p. p_user_id p = user_id \<and> p_directory_id p = x) perms = None)
               \<longrightarrow> check_permission dirs perms user_id directory_id action = Some False))"
proof -
  from build_path_dangling [OF assms(2), of "[directory_id]"]
  obtain above where bp: "build_path dirs D [directory_id] = Some (directory_id # above)"
    and ne: "above \<noteq> []" and dg: "find_one (\<lambda>d. d_id d = last above) dirs = None"
    by auto
  have ret: "\<exists>b. check_permission dirs perms user_id directory_id action = Some b"
    using assms(1) bp by (auto simp: check_permission_def)
  have deny: "check_permission dirs perms user_id directory_id action = Some False"
    if "d_owner_id D \<noteq> user_id"
       "\<forall>x \<in> set (directory_id # above).
           find_one (\<lambda>p. p_user_id p = user_id \<and> p_directory_id p = x) perms = None"
    using assms(1) bp that(1) scan_path_none [OF that(2)]
    by (simp add: check_permission_def)
  from ret bp ne dg deny show ?thesis by blast
qed

theorem dangling_walk_safe_witness:
  "check_permission ex_dirs ex_perms ''bob'' ''lost'' READ = Some False
   \<and> build_path ex_dirs (mk_dir ''lost'' ''alice'' (Some ''gone'') False) [''lost'']
       = Some [''lost'', ''gone'']
   \<and> find_one (\<lambda>d. d_id d = ''gone'') ex_dirs = None"
proof -
  have f: "find_one (\<lambda>d. d_id d = ''lost'') ex_dirs
             = Some (mk_dir ''lost'' ''alice'' (Some ''gone'') False)"
    by (simp add: ex_defs)
  have g: "find_one (\<lambda>d. d_id d = ''gone'') ex_dirs = None" by (simp add: ex_defs)
  have dc: "dangling_chain ex_dirs (mk_dir ''lost'' ''alice'' (Some ''gone'') False)"
    by (rule dangling_chain.broken_here) (simp_all add: ex_defs)
  have bp: "build_path ex_dirs (mk_dir ''lost'' ''alice'' (Some ''gone'') False) [''lost'']
       = Some [''lost'', ''gone'']"
    by (simp add: build_path.simps ex_defs)
  have ng: "d_owner_id (mk_dir ''lost'' ''alice'' (Some ''gone'') False) \<noteq> ''bob''
      \<and> (\<forall>x \<in> set [''lost'', ''gone''].
            find_one (\<lambda>p. p_user_id p = ''bob'' \<and> p_directory_id p = x) ex_perms = None)"
    by (simp add: ex_defs)
  show ?thesis
    using dangling_walk_safe [OF f dc, of ex_perms "''bob''" READ] bp g ng
    by auto
qed

section \<open>Cascade delete ordering\<close>

lemma ex_store_cascade:
  "delete_directory ex_store ''a'' ''alice'' USER True
     = Some (Inr (True,
         [\<lparr>st_dirs = ex_chain, st_files = [mk_file ''fz'' ''z''],
           st_perms = [mk_perm ''pa'' ''bob'' ''a'' [''read''],
                       mk_perm ''pb'' ''bob'' ''b'' [''read''],
                       mk_perm ''pc'' ''bob'' ''c'' [''write''],
                       mk_perm ''pz'' ''bob'' ''z'' [''read'']]\<rparr>,
          \<lparr>st_dirs = ex_chain, st_files = [mk_file ''fz'' ''z''],
           st_perms = [mk_perm ''pz'' ''bob'' ''z'' [''read'']]\<rparr>,
          \<lparr>st_dirs = [mk_dir ''z'' ''alice'' None False], st_files = [mk_file ''fz'' ''z''],
           st_perms = [mk_perm ''pz'' ''bob'' ''z'' [''read'']]\<rparr>]))"
proof -
  have f: "find_one (\<lambda>d. d_id d = ''a'') ex_chain = Some (mk_dir ''a'' ''alice'' None False)"
    by (simp add: find_one_def ex_chain_def mk_dir_def)
  have o: "d_owner_id (mk_dir ''a'' ''alice'' None False) = ''alice''"
    by (simp add: mk_dir_def)
  have r: "delete_many (\<lambda>d. d_id d \<in> set ([''a''] @ [''b'', ''c''])) ex_chain
             = [mk_dir ''z'' ''alice'' None False]"
    by (simp add: delete_many_def ex_chain_def mk_dir_def)
  show ?thesis
    by (simp add: delete_directory_def ex_store_def f o ex_chain_descendants Let_def r)
       (simp add: delete_many_def mk_file_def mk_perm_def ex_chain_def mk_dir_def)
qed

text \<open>
  C9: a cascade delete that goes through issues exactly three writes, in this order:
  the files of the plan, the grants of the plan, the directories of the plan, the plan
  being the target and its enumerated descendants in all three; and in the store before
  the first write and after each of the three, no file and no grant refers to a
  directory of the plan that is gone.
\<close>

theorem cascade_order:
  assumes "delete_directory st directory_id user_id user_role True = Some (Inr (True, trace))"
  shows "\<exists>descendant_ids.
           get_descendant_ids (st_dirs st) directory_id = Some descendant_ids
         \<and> trace =
             [st\<lparr>st_files := filter (\<lambda>f. f_directory_id f \<notin> set (directory_id # descendant_ids))
                                (st_files st)\<rparr>,
              st\<lparr>st_files := filter (\<lambda>f. f_directory_id f \<notin> set (directory_id # descendant_ids))
                                (st_files st),
                 st_perms := filter (\<lambda>p. p_directory_id p \<notin> set (directory_id # descendant_ids))
                                (st_perms st)\<rparr>,
              st\<lparr>st_files := filter (\<lambda>f. f_directory_id f \<notin> set (directory_id # descendant_ids))
                                (st_files st),
                 st_perms := filter (\<lambda>p. p_directory_id p \<notin> set (directory_id # descendant_ids))
                                (st_perms st),
                 st_dirs := filter (\<lambda>d. d_id d \<notin> set (directory_id # descendant_ids))
                                (st_dirs st)\<rparr>]
         \<and> (\<forall>s \<in> set (st # trace). orphan_free s (directory_id # descendant_ids))"
proof -
  from assms obtain dir_doc where
    d: "find_one (\<lambda>d. d_id d = directory_id) (st_dirs st) = Some dir_doc"
    by (cases "find_one (\<lambda>d. d_id d = directory_id) (st_dirs st)")
       (simp_all add: delete_directory_def)
  from assms d obtain ds where
    g: "get_descendant_ids (st_dirs st) directory_id = Some ds"
    by (cases "get_descendant_ids (st_dirs st) directory_id")
       (auto simp: delete_directory_def split: if_splits)
  let ?plan = "directory_id # ds"
  from assms d g have tr: "trace =
             [st\<lparr>st_files := filter (\<lambda>f. f_directory_id f \<notin> set ?plan) (st_files st)\<rparr>,
              st\<lparr>st_files := filter (\<lambda>f. f_directory_id f \<notin> set ?plan) (st_files st),
                 st_perms := filter (\<lambda>p. p_directory_id p \<notin> set ?plan) (st_perms st)\<rparr>,
              st\<lparr>st_files := filter (\<lambda>f. f_directory_id f \<notin> set ?plan) (st_files st),
                 st_perms := filter (\<lambda>p. p_directory_id p \<notin> set ?plan) (st_perms st),
                 st_dirs := filter (\<lambda>d. d_id d \<notin> set ?plan) (st_dirs st)\<rparr>]"
    by (auto simp: delete_directory_def delete_many_def Let_def split: if_splits)
  have "directory_id \<in> d_id ` set (st_dirs st)"
    using find_one_SomeD [OF d] by auto
  moreover have "set ds \<subseteq> d_id ` set (st_dirs st)"
    using descendants_loop_stored [OF g [unfolded get_descendant_ids_def]] by simp
  ultimately have stored: "set ?plan \<subseteq> d_id ` set (st_dirs st)" by simp
  have "\<forall>s \<in> set (st # trace). orphan_free s ?plan"
    unfolding tr using stored by (auto simp: orphan_free_def)
  with g tr show ?thesis by blast
qed

theorem cascade_order_witness:
  "get_descendant_ids (st_dirs ex_store) ''a'' = Some [''b'', ''c'']
   \<and> delete_directory ex_store ''a'' ''alice'' USER True
     = Some (Inr (True,
         [ex_store\<lparr>st_files := [mk_file ''fz'' ''z'']\<rparr>,
          ex_store\<lparr>st_files := [mk_file ''fz'' ''z''],
                   st_perms := [mk_perm ''pz'' ''bob'' ''z'' [''read'']]\<rparr>,
          ex_store\<lparr>st_files := [mk_file ''fz'' ''z''],
                   st_perms := [mk_perm ''pz'' ''bob'' ''z'' [''read'']],
                   st_dirs := [mk_dir ''z'' ''alice'' None False]\<rparr>]))"
proof -
  have g: "get_descendant_ids (st_dirs ex_store) ''a'' = Some [''b'', ''c'']"
    by (simp add: ex_store_def ex_chain_descendants)
  have e: "filter (\<lambda>f. f_directory_id f \<notin> set [''a'', ''b'', ''c'']) (st_files ex_store)
             = [mk_file ''fz'' ''z'']"
          "filter (\<lambda>p. p_directory_id p \<notin> set [''a'', ''b'', ''c'']) (st_perms ex_store)
             = [mk_perm ''pz'' ''bob'' ''z'' [''read'']]"
          "filter (\<lambda>d. d_id d \<notin> set [''a'', ''b'', ''c'']) (st_dirs ex_store)
             = [mk_dir ''z'' ''alice'' None False]"
    by (simp_all add: ex_store_def ex_chain_def mk_file_def mk_perm_def mk_dir_def)
  from cascade_order [OF ex_store_cascade] g e
  show ?thesis by (simp add: ex_store_cascade)
qed

section \<open>Fetching one directory\<close>

lemma fetch_by_first_grant:
  assumes "find_one (\<lambda>d. d_id d = directory_id) dirs = Some D"
      and "\<not> d_is_public D"
      and "u_role current_user \<noteq> SUPER_ADMIN"
      and "d_owner_id D \<noteq> u_id current_user"
      and "build_path dirs D [directory_id] = Some path_ids"
  shows "(get_directory_endpoint dirs perms directory_id current_user = Some (Inr D)
            \<longleftrightarrow> (\<exists>g. first_grant perms (u_id current_user) path_ids = Some g
                      \<and> ''read'' \<in> set (p_permissions g)))
       \<and> (get_directory_endpoint dirs perms directory_id current_user = Some (Inr D)
            \<or> get_directory_endpoint dirs perms directory_id current_user
                = Some (Inl (HTTPException 403 ''No access to this directory'')))
       \<and> (\<forall>g. find_one (\<lambda>p. p_user_id p = u_id current_user
                                \<and> p_directory_id p = directory_id) perms = Some g
                \<and> set (p_permissions g) = {''write''}
             \<longrightarrow> can_access_directory dirs perms (u_id current_user) directory_id = Some False
                 \<and> get_directory_endpoint dirs perms directory_id current_user
                     = Some (Inl (HTTPException 403 ''No access to this directory''))
                 \<and> directory_id \<in> d_id ` set (get_user_directories dirs perms
                                       (u_id current_user) (u_role current_user)))"
proof -
  let ?u = "u_id current_user"
  let ?ok = "\<exists>g. first_grant perms ?u path_ids = Some g \<and> ''read'' \<in> set (p_permissions g)"
  have cp: "check_permission dirs perms ?u directory_id READ = Some ?ok"
    using assms(1,4,5)
    by (auto simp: check_permission_def scan_path_first_grant split: option.splits)
  have ca: "can_access_directory dirs perms ?u directory_id = Some ?ok"
    using assms(1,4) cp by (simp add: can_access_directory_def)
  have ep: "get_directory_endpoint dirs perms directory_id current_user
          = (if ?ok then Some (Inr D)
             else Some (Inl (HTTPException 403 ''No access to this directory'')))"
    using assms(1-4) ca by (simp add: get_directory_endpoint_def get_directory_def)
  have one: "get_directory_endpoint dirs perms directory_id current_user = Some (Inr D)
            \<longleftrightarrow> ?ok"
    unfolding ep by simp
  have two: "get_directory_endpoint dirs perms directory_id current_user = Some (Inr D)
            \<or> get_directory_endpoint dirs perms directory_id current_user
                = Some (Inl (HTTPException 403 ''No access to this directory''))"
    unfolding ep by simp
  have three: "can_access_directory dirs perms ?u directory_id = Some False
                 \<and> get_directory_endpoint dirs perms directory_id current_user
                     = Some (Inl (HTTPException 403 ''No access to this directory''))
                 \<and> directory_id \<in> d_id ` set (get_user_directories dirs perms ?u
                                                  (u_role current_user))"
    if g: "find_one (\<lambda>p. p_user_id p = ?u \<and> p_directory_id p = directory_id) perms = Some g"
      and w: "set (p_permissions g) = {''write''}" for g
  proof -
    from build_path_prefix [OF assms(5)] obtain rest where p: "path_ids = directory_id # rest"
      by auto
    have no: "\<not> ?ok" unfolding p using g w by simp
    have D: "D \<in> set dirs" "d_id D = directory_id"
      using find_one_SomeD [OF assms(1)] by simp_all
    have G: "g \<in> set perms" "p_user_id g = ?u" "p_directory_id g = d_id D"
      using find_one_SomeD [OF g] D(2) by simp_all
    from granted_is_listed [OF D(1) G assms(3)] D(2)
    have "directory_id \<in> d_id ` set (get_user_directories dirs perms ?u (u_role current_user))"
      by simp
    with no ca ep show ?thesis by simp
  qed
  from one two three show ?thesis by blast
qed


lemma parent_read_grant_fetches:
  assumes "find_one (\<lambda>d. d_id d = directory_id) dirs = Some D"
      and "\<not> d_is_public D"
      and "u_role current_user \<noteq> SUPER_ADMIN"
      and "d_owner_id D \<noteq> u_id current_user"
      and "build_path dirs D [directory_id] = Some path_ids"
      and "d_parent_id D = Some p" and "p \<noteq> []"
      and "find_one (\<lambda>g. p_user_id g = u_id current_user \<and> p_directory_id g = directory_id)
             perms = None"
      and "find_one (\<lambda>g. p_user_id g = u_id current_user \<and> p_directory_id g = p) perms
             = Some g"
  shows "get_directory_endpoint dirs perms directory_id current_user
           = (if ''read'' \<in> set (p_permissions g) then Some (Inr D)
              else Some (Inl (HTTPException 403 ''No access to this directory'')))"
proof -
  from build_path_is_chain [OF assms(5)] obtain ups where
    u: "path_ids = [directory_id] @ ups" "ancestor_chain dirs D ups" by blast
  from chain_starts_at_parent [OF u(2) assms(6,7)] obtain rest where "ups = p # rest" ..
  with u(1) have path: "path_ids = directory_id # p # rest" by simp
  have fg: "first_grant perms (u_id current_user) path_ids = Some g"
    unfolding path using assms(8,9) by simp
  note t = fetch_by_first_grant [OF assms(1-5), of perms]
  from t fg show ?thesis by auto
qed

text \<open>
  C10: for a user who is neither super-admin nor the owner of an existing non-public
  directory, the walk returns on every store without cycles, and what it returns is the
  directory followed by its ancestor chain through the \<open>parent_id\<close> links, nearest
  first. Whenever it has returned a path, the fetch returns the directory exactly when
  the first grant of the user along the path contains read, and otherwise raises 403; a
  user whose grant on the directory is exactly write is refused by
  \<open>can_access_directory\<close> and by the fetch although the directory is among the user's
  visible directories; and a user without a grant on the directory is let in or
  refused by the grant on the directory's parent.
\<close>

theorem fetch_requires_read:
  assumes "find_one (\<lambda>d. d_id d = directory_id) dirs = Some D"
      and "\<not> d_is_public D"
      and "u_role current_user \<noteq> SUPER_ADMIN"
      and "d_owner_id D \<noteq> u_id current_user"
  shows "(acyclic (child_rel dirs) \<longrightarrow>
            (\<exists>path_ids. build_path dirs D [directory_id] = Some path_ids))
       \<and> (\<forall>path_ids. build_path dirs D [directory_id] = Some path_ids
             \<longleftrightarrow> (\<exists>ups. path_ids = directory_id # ups \<and> ancestor_chain dirs D ups))
       \<and> (\<forall>path_ids. build_path dirs D [directory_id] = Some path_ids \<longrightarrow>
            (get_directory_endpoint dirs perms directory_id current_user = Some (Inr D)
                 \<longleftrightarrow> (\<exists>g. first_grant perms (u_id current_user) path_ids = Some g
                           \<and> ''read'' \<in> set (p_permissions g)))
            \<and> (get_directory_endpoint dirs perms directory_id current_user = Some (Inr D)
                 \<or> get_directory_endpoint dirs perms directory_id current_user
                     = Some (Inl (HTTPException 403 ''No access to this directory'')))
            \<and> (\<forall>g. find_one (\<lambda>p. p_user_id p = u_id current_user
                                     \<and> p_directory_id p = directory_id) perms = Some g
                     \<and> set (p_permissions g) = {''write''}
                  \<longrightarrow> can_access_directory dirs perms (u_id current_user) directory_id
                        = Some False
                      \<and> get_directory_endpoint dirs perms directory_id current_user
                          = Some (Inl (HTTPException 403 ''No access to this directory''))
                      \<and> directory_id \<in> d_id ` set (get_user_directories dirs perms
                                            (u_id current_user) (u_role current_user))))
       \<and> (\<forall>path_ids p g.
            build_path dirs D [directory_id] = Some path_ids
            \<and> d_parent_id D = Some p \<and> p \<noteq> []
            \<and> find_one (\<lambda>g. p_user_id g = u_id current_user
                              \<and> p_directory_id g = directory_id) perms = None
            \<and> find_one (\<lambda>g. p_user_id g = u_id current_user \<and> p_directory_id g = p) perms
                = Some g
            \<longrightarrow> get_directory_endpoint dirs perms directory_id current_user
                   = (if ''read'' \<in> set (p_permissions g) then Some (Inr D)
                      else Some (Inl (HTTPException 403 ''No access to this directory''))))"
proof -
  have stored: "D \<in> set dirs" using find_one_SomeD [OF assms(1)] by simp
  have returns: "acyclic (child_rel dirs) \<longrightarrow>
            (\<exists>path_ids. build_path dirs D [directory_id] = Some path_ids)"
    using build_path_returns [OF _ stored] by blast
  have chain: "\<forall>path_ids. build_path dirs D [directory_id] = Some path_ids
             \<longleftrightarrow> (\<exists>ups. path_ids = directory_id # ups \<and> ancestor_chain dirs D ups)"
    by (simp add: build_path_iff_chain)
  have decides: "\<forall>path_ids. build_path dirs D [directory_id] = Some path_ids \<longrightarrow>
            (get_directory_endpoint dirs perms directory_id current_user = Some (Inr D)
                 \<longleftrightarrow> (\<exists>g. first_grant perms (u_id current_user) path_ids = Some g
                           \<and> ''read'' \<in> set (p_permissions g)))
            \<and> (get_directory_endpoint dirs perms directory_id current_user = Some (Inr D)
                 \<or> get_directory_endpoint dirs perms directory_id current_user
                     = Some (Inl (HTTPException 403 ''No access to this directory'')))
            \<and> (\<forall>g. find_one (\<lambda>p. p_user_id p = u_id current_user
                                     \<and> p_directory_id p = directory_id) perms = Some g
                     \<and> set (p_permissions g) = {''write''}
                  \<longrightarrow> can_access_directory dirs perms (u_id current_user) directory_id
                        = Some False
                      \<and> get_directory_endpoint dirs perms directory_id current_user
                          = Some (Inl (HTTPException 403 ''No access to this directory''))
                      \<and> directory_id \<in> d_id ` set (get_user_directories dirs perms
                                            (u_id current_user) (u_role current_user)))"
  proof (intro allI impI)
    fix path_ids
    assume "build_path dirs D [directory_id] = Some path_ids"
    from fetch_by_first_grant [OF assms this]
    show "(get_directory_endpoint dirs perms directory_id current_user = Some (Inr D)
                 \<longleftrightarrow> (\<exists>g. first_grant perms (u_id current_user) path_ids = Some g
                           \<and> ''read'' \<in> set (p_permissions g)))
            \<and> (get_directory_endpoint dirs perms directory_id current_user = Some (Inr D)
                 \<or> get_directory_endpoint dirs perms directory_id current_user
                     = Some (Inl (HTTPException 403 ''No access to this directory'')))
            \<and> (\<forall>g. find_one (\<lambda>p. p_user_id p = u_id current_user
                                     \<and> p_directory_id p = directory_id) perms = Some g
                     \<and> set (p_permissions g) = {''write''}
                  \<longrightarrow> can_access_directory dirs perms (u_id current_user) directory_id
                        = Some False
                      \<and> get_directory_endpoint dirs perms directory_id current_user
                          = Some (Inl (HTTPException 403 ''No access to this directory''))
                      \<and> directory_id \<in> d_id ` set (get_user_directories dirs perms
                                            (u_id current_user) (u_role current_user)))" .
  qed
  have inherits: "\<forall>path_ids p g.
            build_path dirs D [directory_id] = Some path_ids
            \<and> d_parent_id D = Some p \<and> p \<noteq> []
            \<and> find_one (\<lambda>g. p_user_id g = u_id current_user
                              \<and> p_directory_id g = directory_id) perms = None
            \<and> find_one (\<lambda>g. p_user_id g = u_id current_user \<and> p_directory_id g = p) perms
                = Some g
            \<longrightarrow> get_directory_endpoint dirs perms directory_id current_user
                   = (if ''read'' \<in> set (p_permissions g) then Some (Inr D)
                      else Some (Inl (HTTPException 403 ''No access to this directory'')))"
  proof (intro allI impI, elim conjE)
    fix path_ids p g
    assume "build_path dirs D [directory_id] = Some path_ids"
      and "d_parent_id D = Some p" and "p \<noteq> []"
      and "find_one (\<lambda>g. p_user_id g = u_id current_user
                              \<and> p_directory_id g = directory_id) perms = None"
      and "find_one (\<lambda>g. p_user_id g = u_id current_user \<and> p_directory_id g = p) perms
                = Some g"
    then show "get_directory_endpoint dirs perms directory_id current_user
                   = (if ''read'' \<in> set (p_permissions g) then Some (Inr D)
                      else Some (Inl (HTTPException 403 ''No access to this directory'')))"
      by (rule parent_read_grant_fetches [OF assms])
  qed
  from returns chain decides inherits show ?thesis by (intro conjI)
qed

theorem fetch_requires_read_witness:
  "build_path ex_dirs (mk_dir ''docs'' ''alice'' (Some ''top'') False) [''docs'']
     = Some [''docs'', ''top'']
   \<and> get_directory_endpoint ex_dirs [mk_perm ''g3'' ''erin'' ''docs'' [''write'']] ''docs''
      (mk_user ''erin'' USER)
     = Some (Inl (HTTPException 403 ''No access to this directory''))
   \<and> can_access_directory ex_dirs [mk_perm ''g3'' ''erin'' ''docs'' [''write'']]
        (u_id (mk_user ''erin'' USER)) ''docs'' = Some False
   \<and> ''docs'' \<in> d_id ` set (get_user_directories ex_dirs
                   [mk_perm ''g3'' ''erin'' ''docs'' [''write'']]
                   (u_id (mk_user ''erin'' USER)) (u_role (mk_user ''erin'' USER)))
   \<and> get_directory_endpoint ex_dirs ex_perms ''docs'' (mk_user ''bob'' USER)
     = Some (Inr (mk_dir ''docs'' ''alice'' (Some ''top'') False))
   \<and> get_directory_endpoint ex_dirs [mk_perm ''g4'' ''fay'' ''top'' [''read'']] ''docs''
        (mk_user ''fay'' USER)
     = Some (Inr (mk_dir ''docs'' ''alice'' (Some ''top'') False))
   \<and> get_directory_endpoint ex_dirs [mk_perm ''g5'' ''gus'' ''top'' [''write'']] ''docs''
        (mk_user ''gus'' USER)
     = Some (Inl (HTTPException 403 ''No access to this directory''))"
proof -
  let ?D = "mk_dir ''docs'' ''alice'' (Some ''top'') False"
  let ?T = "mk_dir ''top'' ''alice'' None False"
  let ?e = "mk_perm ''g3'' ''erin'' ''docs'' [''write'']"
  let ?h = "mk_perm ''g4'' ''fay'' ''top'' [''read'']"
  let ?k = "mk_perm ''g5'' ''gus'' ''top'' [''write'']"
  have f: "find_one (\<lambda>d. d_id d = ''docs'') ex_dirs = Some ?D" by (simp add: ex_defs)
  have np: "\<not> d_is_public ?D" by (simp add: ex_defs)
  have r: "u_role (mk_user ''erin'' USER) \<noteq> SUPER_ADMIN"
          "u_role (mk_user ''bob'' USER) \<noteq> SUPER_ADMIN"
          "u_role (mk_user ''fay'' USER) \<noteq> SUPER_ADMIN"
          "u_role (mk_user ''gus'' USER) \<noteq> SUPER_ADMIN" by (simp_all add: ex_defs)
  have o: "d_owner_id ?D \<noteq> u_id (mk_user ''erin'' USER)"
          "d_owner_id ?D \<noteq> u_id (mk_user ''bob'' USER)"
          "d_owner_id ?D \<noteq> u_id (mk_user ''fay'' USER)"
          "d_owner_id ?D \<noteq> u_id (mk_user ''gus'' USER)" by (simp_all add: ex_defs)
  have par: "d_parent_id ?D = Some ''top''" "''top'' \<noteq> []" by (simp_all add: ex_defs)
  have top: "find_one (\<lambda>x. d_id x = ''top'') ex_dirs = Some ?T" by (simp add: ex_defs)
  have "ancestor_chain ex_dirs ?T []"
    by (rule ancestor_chain.at_root) (simp add: ex_defs)
  with par top have ch: "ancestor_chain ex_dirs ?D [''top'']"
    by (rule ancestor_chain.at_parent)
  note erin = fetch_requires_read [OF f np r(1) o(1), of "[?e]"]
  note bob = fetch_requires_read [OF f np r(2) o(2), of ex_perms]
  note fay = fetch_requires_read [OF f np r(3) o(3), of "[?h]"]
  note gus = fetch_requires_read [OF f np r(4) o(4), of "[?k]"]
  from erin ex_dirs_acyclic have "\<exists>path_ids. build_path ex_dirs ?D [''docs''] = Some path_ids"
    by (rule conjunct1 [THEN mp])
  from erin [THEN conjunct2, THEN conjunct1, rule_format, of "[''docs'', ''top'']"] ch
  have p: "build_path ex_dirs ?D [''docs''] = Some [''docs'', ''top'']" by simp
  have g: "find_one (\<lambda>p. p_user_id p = u_id (mk_user ''erin'' USER)
                          \<and> p_directory_id p = ''docs'') [?e] = Some ?e
         \<and> set (p_permissions ?e) = {''write''}"
    by (simp add: ex_defs)
  have b: "\<exists>g. first_grant ex_perms (u_id (mk_user ''bob'' USER)) [''docs'', ''top''] = Some g
              \<and> ''read'' \<in> set (p_permissions g)"
    by (simp add: ex_defs)
  from erin [THEN conjunct2, THEN conjunct2, THEN conjunct1, rule_format, OF p,
             THEN conjunct2, THEN conjunct2, rule_format, OF g]
  have 1: "can_access_directory ex_dirs [?e] (u_id (mk_user ''erin'' USER)) ''docs'' = Some False
         \<and> get_directory_endpoint ex_dirs [?e] ''docs'' (mk_user ''erin'' USER)
           = Some (Inl (HTTPException 403 ''No access to this directory''))
         \<and> ''docs'' \<in> d_id ` set (get_user_directories ex_dirs [?e]
                   (u_id (mk_user ''erin'' USER)) (u_role (mk_user ''erin'' USER)))" .
  from bob [THEN conjunct2, THEN conjunct2, THEN conjunct1, rule_format, OF p,
            THEN conjunct1] b
  have 2: "get_directory_endpoint ex_dirs ex_perms ''docs'' (mk_user ''bob'' USER) = Some (Inr ?D)"
    by (rule iffD2)
  have fn: "find_one (\<lambda>g. p_user_id g = u_id (mk_user ''fay'' USER)
                          \<and> p_directory_id g = ''docs'') [?h] = None"
           "find_one (\<lambda>g. p_user_id g = u_id (mk_user ''fay'' USER)
                          \<and> p_directory_id g = ''top'') [?h] = Some ?h"
    by (simp_all add: ex_defs)
  have gn: "find_one (\<lambda>g. p_user_id g = u_id (mk_user ''gus'' USER)
                          \<and> p_directory_id g = ''docs'') [?k] = None"
           "find_one (\<lambda>g. p_user_id g = u_id (mk_user ''gus'' USER)
                          \<and> p_directory_id g = ''top'') [?k] = Some ?k"
    by (simp_all add: ex_defs)
  from fay [THEN conjunct2, THEN conjunct2, THEN conjunct2, rule_format,
            of "[''docs'', ''top'']" "''top''" ?h] p par fn
  have 3: "get_directory_endpoint ex_dirs [?h] ''docs'' (mk_user ''fay'' USER) = Some (Inr ?D)"
    by (simp add: ex_defs)
  from gus [THEN conjunct2, THEN conjunct2, THEN conjunct2, rule_format,
            of "[''docs'', ''top'']" "''top''" ?k] p par gn
  have 4: "get_directory_endpoint ex_dirs [?k] ''docs'' (mk_user ''gus'' USER)
             = Some (Inl (HTTPException 403 ''No access to this directory''))"
    by (simp add: ex_defs)
  from p 1 2 3 4 show ?thesis by simp
qed

end
